theory Spec2Isabelle
  imports Main "HOL-Library.Code_Target_Nat"
begin

section \<open>JavaScript values\<close>

text \<open>
  The hook of \<^verbatim>\<open>src/lib/useLocalStorageState.ts\<close> keeps a plain JavaScript object (the
  State \<open>T extends Record<string, unknown>\<close>) in a React state cell and mirrors it, as one
  JSON text, under one key of \<open>window.localStorage\<close>.

  Values are modelled by the datatype \<open>jsval\<close>. An object is the list of its own enumerable
  properties in the order in which the engine enumerates them and in which
  \<open>JSON.stringify\<close> and the spread operator visit them: the names that are array indices
  come first, in ascending order, and the other names follow in the order of their
  creation. A real object never has two properties of the same name.
  Numbers are IEEE doubles. An integer of at most \<open>2^53 - 1\<close> in absolute value (a safe
  integer) is \<open>JNum\<close> of it. Every other finite number is \<open>JDouble\<close> of the text that
  \<open>Number::toString\<close> writes for it, which determines the number: \<open>0.8\<close> is
  \<open>JDouble ''0.8''\<close> and \<open>2^53\<close> is \<open>JDouble ''9007199254740992''\<close>. \<open>JNaN\<close> is \<open>NaN\<close> and
  \<open>JInfinity\<close> is an infinity, the negative one when its argument is true. There is no
  negative zero: \<open>-0\<close>, which \<open>JSON.stringify\<close> writes as \<open>0\<close>, is not told from \<open>0\<close>.
  Strings are Isabelle strings, that is, sequences of 8-bit characters read as code units
  below \<open>0x100\<close>.
  The prototype of an object is not part of the model.
\<close>

datatype jsval =
    JUndefined
  | JNull
  | JBool bool
  | JNum int
  | JNaN
  | JInfinity bool
  | JDouble string
  | JStr string
  | JArr "jsval list"
  | JObj "(string \<times> jsval) list"

type_synonym jsobj = "(string \<times> jsval) list"

datatype error = SyntaxError | DOMException | Error string

subsection \<open>Decimal digits\<close>

definition is_digit :: "char \<Rightarrow> bool" where
  "is_digit c \<longleftrightarrow> (48::nat) \<le> of_char c \<and> of_char c \<le> (57::nat)"

fun show_nat :: "nat \<Rightarrow> string" where
  "show_nat n = (if n < 10 then [char_of (48 + n)] else show_nat (n div 10) @ [char_of (48 + n mod 10)])"

declare show_nat.simps [simp del]

definition show_int :: "int \<Rightarrow> string" where
  "show_int i = (if i < 0 then CHR ''-'' # show_nat (nat (- i)) else show_nat (nat i))"

definition nat_of_digits :: "string \<Rightarrow> nat" where
  "nat_of_digits ds = foldl (\<lambda>a c. 10 * a + (of_char c - 48)) 0 ds"

subsection \<open>Objects\<close>

text \<open>A property name is an array index when it is the decimal text, without a leading
  zero, of an integer from \<open>0\<close> to \<open>2^32 - 2\<close>.\<close>

definition array_index :: "string \<Rightarrow> nat option" where
  "array_index k =
    (if k \<noteq> [] \<and> list_all is_digit k \<and> (k = ''0'' \<or> hd k \<noteq> CHR ''0'')
        \<and> nat_of_digits k \<le> 4294967294
     then Some (nat_of_digits k) else None)"

text \<open>The order of \<open>OrdinaryOwnPropertyKeys\<close>: an array index precedes every greater
  array index and every name that is no array index; among the latter the order is that of
  creation.\<close>

definition key_precedes :: "string \<Rightarrow> string \<Rightarrow> bool" where
  "key_precedes a b =
    (case array_index a of
       None \<Rightarrow> array_index b = None
     | Some i \<Rightarrow> (case array_index b of None \<Rightarrow> True | Some j \<Rightarrow> i < j))"

definition key_order :: "string list \<Rightarrow> bool" where
  "key_order ks = sorted_wrt key_precedes ks"

text \<open>A new property takes the place that this order gives it: after the array indices
  below it when its name is an array index, and last otherwise.\<close>

definition index_below :: "nat \<Rightarrow> string \<times> jsval \<Rightarrow> bool" where
  "index_below i p = (case array_index (fst p) of None \<Rightarrow> False | Some j \<Rightarrow> j < i)"

definition obj_add :: "string \<Rightarrow> jsval \<Rightarrow> jsobj \<Rightarrow> jsobj" where
  "obj_add k v ps =
    (case array_index k of
       None \<Rightarrow> ps @ [(k, v)]
     | Some i \<Rightarrow> takeWhile (index_below i) ps @ (k, v) # dropWhile (index_below i) ps)"

text \<open>\<open>CreateDataProperty\<close>, by which the object spread and \<open>JSON.parse\<close> define a property:
  an existing property keeps its place and takes the new value, a new one is added.
  \<open>delete dict[k]\<close> removes the property when it is there.\<close>

fun obj_replace :: "string \<Rightarrow> jsval \<Rightarrow> jsobj \<Rightarrow> jsobj" where
  "obj_replace k v [] = []"
| "obj_replace k v (p # ps) = (if fst p = k then (k, v) # ps else p # obj_replace k v ps)"

definition obj_set :: "string \<Rightarrow> jsval \<Rightarrow> jsobj \<Rightarrow> jsobj" where
  "obj_set k v ps = (if k \<in> fst ` set ps then obj_replace k v ps else obj_add k v ps)"

definition obj_delete :: "string \<Rightarrow> jsobj \<Rightarrow> jsobj" where
  "obj_delete k ps = filter (\<lambda>p. fst p \<noteq> k) ps"

text \<open>Property assignment \<open>dict[k] = v\<close> on a plain object. An own property of that name is
  replaced. Without one a new own property is added, except under the name \<open>__proto__\<close>:
  that name is inherited from \<open>Object.prototype\<close> as an accessor, and the assignment runs
  its setter, which changes the prototype of the object and adds no property. (Every other
  name that a plain object inherits is a writable data property, which an assignment
  shadows by a new own property.) The prototype is not part of the model: neither the
  spread nor \<open>JSON.stringify\<close> looks at it.\<close>

definition obj_assign :: "string \<Rightarrow> jsval \<Rightarrow> jsobj \<Rightarrow> jsobj" where
  "obj_assign k v ps =
    (if k = ''__proto__'' \<and> k \<notin> fst ` set ps then ps else obj_set k v ps)"

text \<open>Property read \<open>obj[k]\<close>: \<open>undefined\<close> when the property is absent.\<close>

definition obj_get :: "jsobj \<Rightarrow> string \<Rightarrow> jsval" where
  "obj_get ps k = (case map_of ps k of None \<Rightarrow> JUndefined | Some v \<Rightarrow> v)"

text \<open>The object spread \<open>{ ...a, ...b }\<close>: a copy of \<open>a\<close> on which every property of \<open>b\<close> is
  defined in turn.\<close>

definition spread :: "jsobj \<Rightarrow> jsobj \<Rightarrow> jsobj" where
  "spread a b = fold (\<lambda>(k, v). obj_set k v) b a"

section \<open>Numbers\<close>

subsection \<open>Doubles\<close>

text \<open>
  A finite double that is not negative is \<open>m * 2^e\<close> for a mantissa \<open>m < 2^53\<close> and an
  exponent \<open>e\<close> from \<open>-1074\<close> to \<open>971\<close>; it is held as the pair \<open>(m, e)\<close> with
  \<open>2^52 \<le> m\<close>, or with \<open>e = -1074\<close> when the number is below \<open>2^-1022\<close>. The sign is kept
  apart.

  \<open>nearest_double a b\<close> is the double nearest to the fraction \<open>a / b\<close>, with the even
  mantissa when two are equally near: the rounding by which a numeric literal becomes a
  number. It is \<open>None\<close> when the fraction is so large that it rounds to infinity.
\<close>

type_synonym double = "nat \<times> int"

fun bit_length :: "nat \<Rightarrow> nat" where
  "bit_length n = (if n = 0 then 0 else Suc (bit_length (n div 2)))"

declare bit_length.simps [simp del]

text \<open>The integer \<open>l\<close> with \<open>2^l \<le> a / b < 2^(l + 1)\<close>, for positive \<open>a\<close> and \<open>b\<close>.\<close>

definition floor_log2 :: "nat \<Rightarrow> nat \<Rightarrow> int" where
  "floor_log2 a b =
    (let l = int (bit_length a) - int (bit_length b)
     in if (if 0 \<le> l then b * 2 ^ nat l \<le> a else b \<le> a * 2 ^ nat (- l)) then l else l - 1)"

text \<open>The integer nearest to \<open>a / b\<close>, the even one of two.\<close>

definition round_even :: "nat \<Rightarrow> nat \<Rightarrow> nat" where
  "round_even a b =
    (let q = a div b; r = a mod b
     in if 2 * r < b then q else if b < 2 * r then q + 1 else if even q then q else q + 1)"

definition nearest_double :: "nat \<Rightarrow> nat \<Rightarrow> double option" where
  "nearest_double a b =
    (if a = 0 then Some (0, - 1074)
     else
       (let e = max (floor_log2 a b - 52) (- 1074);
            m = (if 0 \<le> e then round_even a (b * 2 ^ nat e) else round_even (a * 2 ^ nat (- e)) b);
            e' = (if m = 2 ^ 53 then e + 1 else e);
            m' = (if m = 2 ^ 53 then 2 ^ 52 else m)
        in if 971 < e' then None else Some (m', e')))"

text \<open>The double nearest to the decimal \<open>c * 10^ex\<close>.\<close>

definition decimal_double :: "nat \<Rightarrow> int \<Rightarrow> double option" where
  "decimal_double c ex =
    (if 0 \<le> ex then nearest_double (c * 10 ^ nat ex) 1 else nearest_double c (10 ^ nat (- ex)))"

text \<open>The value of a double that is an integer.\<close>

definition double_integer :: "double \<Rightarrow> nat option" where
  "double_integer x =
    (case x of (m, e) \<Rightarrow>
       if 0 \<le> e then Some (m * 2 ^ nat e)
       else if m mod 2 ^ nat (- e) = 0 then Some (m div 2 ^ nat (- e)) else None)"

subsection \<open>\<open>Number::toString\<close>\<close>

text \<open>
  The text of a positive double \<open>x\<close> is made of the digits of the integer \<open>s\<close> and of the
  position \<open>n\<close> of the decimal point, where \<open>s\<close> has \<open>k\<close> digits, \<open>s * 10^(n - k)\<close> is a
  decimal that reads back as \<open>x\<close>, and \<open>k\<close> is as small as possible; of several such \<open>s\<close>
  the one nearest to \<open>x\<close> is taken. Seventeen digits are enough for every double.

  \<open>decimal_position a b\<close> is the \<open>n\<close> with \<open>10^(n - 1) \<le> a / b < 10^n\<close>. \<open>digits_at\<close> looks
  for \<open>s\<close> among the two decimals of \<open>k\<close> digits next to \<open>x\<close>, the nearer one first.
\<close>

fun lead_zeros :: "nat \<Rightarrow> nat \<Rightarrow> nat \<Rightarrow> nat" where
  "lead_zeros 0 a b = 0"
| "lead_zeros (Suc f) a b = (if b \<le> a * 10 then 0 else Suc (lead_zeros f (a * 10) b))"

definition decimal_position :: "nat \<Rightarrow> nat \<Rightarrow> int" where
  "decimal_position a b =
    (if b \<le> a then int (length (show_nat (a div b))) else - int (lead_zeros 400 a b))"

definition digits_at :: "double \<Rightarrow> nat \<Rightarrow> nat \<Rightarrow> int \<Rightarrow> nat \<Rightarrow> (nat \<times> int) option" where
  "digits_at x a b n k =
    (let ex = n - int k;
         num = (if ex \<le> 0 then a * 10 ^ nat (- ex) else a);
         den = (if ex \<le> 0 then b else b * 10 ^ nat ex);
         lo = num div den;
         r = num mod den;
         c1 = (if 2 * r < den \<or> (2 * r = den \<and> even lo) then lo else lo + 1);
         c2 = (if c1 = lo then lo + 1 else lo)
     in if decimal_double c1 ex = Some x then Some (c1, ex)
        else if decimal_double c2 ex = Some x then Some (c2, ex)
        else None)"

fun first_some :: "('a \<Rightarrow> 'b option) \<Rightarrow> 'a list \<Rightarrow> 'b option" where
  "first_some f [] = None"
| "first_some f (k # ks) = (case f k of None \<Rightarrow> first_some f ks | Some y \<Rightarrow> Some y)"

text \<open>The digits of \<open>s\<close>, without the zeros at the end that a carry may leave, and the
  position \<open>n\<close>.\<close>

definition shortest_digits :: "double \<Rightarrow> string \<times> int" where
  "shortest_digits x =
    (case x of (m, e) \<Rightarrow>
      (let a = (if 0 \<le> e then m * 2 ^ nat e else m);
           b = (if 0 \<le> e then 1 else 2 ^ nat (- e));
           n = decimal_position a b;
           (c, ex) = (case first_some (digits_at x a b n) [1 ..< 18] of
                        Some d \<Rightarrow> d
                      | None \<Rightarrow> (round_even (if n \<le> 17 then a * 10 ^ nat (17 - n) else a)
                                   (if n \<le> 17 then b else b * 10 ^ nat (n - 17)), n - 17))
       in (rev (dropWhile (\<lambda>d. d = CHR ''0'') (rev (show_nat c))), int (length (show_nat c)) + ex)))"

text \<open>The four layouts of \<open>Number::toString\<close>: an integer below \<open>10^21\<close> in full, a decimal
  point inside the digits, a decimal point before the digits with up to six zeros after it,
  and the exponent notation.\<close>

definition layout :: "string \<Rightarrow> int \<Rightarrow> string" where
  "layout ds n =
    (let k = int (length ds)
     in if k \<le> n \<and> n \<le> 21 then ds @ replicate (nat (n - k)) (CHR ''0'')
        else if 0 < n \<and> n \<le> 21 then take (nat n) ds @ CHR ''.'' # drop (nat n) ds
        else if - 6 < n \<and> n \<le> 0 then ''0.'' @ replicate (nat (- n)) (CHR ''0'') @ ds
        else
          (let es = (if n - 1 < 0 then CHR ''-'' else CHR ''+'') # show_nat (nat \<bar>n - 1\<bar>)
           in if k = 1 then ds @ CHR ''e'' # es
              else hd ds # CHR ''.'' # tl ds @ CHR ''e'' # es))"

definition number_text :: "double \<Rightarrow> string" where
  "number_text x =
    (if fst x = 0 then ''0'' else case shortest_digits x of (ds, n) \<Rightarrow> layout ds n)"

section \<open>JSON text\<close>

subsection \<open>\<open>JSON.stringify\<close>\<close>

definition hex_digit :: "nat \<Rightarrow> char" where
  "hex_digit d = (if d < 10 then char_of (48 + d) else char_of (87 + d))"

text \<open>\<open>QuoteJSONString\<close>: the quotation mark, the backslash and the control characters are
  escaped, every other character stands for itself.\<close>

definition esc :: "char \<Rightarrow> string" where
  "esc c = (let n = (of_char c :: nat) in
     if n = 34 then [CHR 0x5C, CHR 0x22]
     else if n = 92 then [CHR 0x5C, CHR 0x5C]
     else if n = 8 then [CHR 0x5C, CHR ''b'']
     else if n = 12 then [CHR 0x5C, CHR ''f'']
     else if n = 10 then [CHR 0x5C, CHR ''n'']
     else if n = 13 then [CHR 0x5C, CHR ''r'']
     else if n = 9 then [CHR 0x5C, CHR ''t'']
     else if n < 32 then
       [CHR 0x5C, CHR ''u'', CHR ''0'', CHR ''0'', hex_digit (n div 16), hex_digit (n mod 16)]
     else [c])"

definition quote :: "string \<Rightarrow> string" where
  "quote s = CHR 0x22 # concat (map esc s) @ [CHR 0x22]"

fun join :: "string list \<Rightarrow> string" where
  "join [] = []"
| "join [t] = t"
| "join (t # u # ts) = t @ CHR '','' # join (u # ts)"

text \<open>\<open>SerializeJSONProperty\<close>: \<open>None\<close> stands for the result \<open>undefined\<close>. An
  \<open>undefined\<close> array element is written \<open>null\<close>, an \<open>undefined\<close> property is left out, and a
  number that is not finite is written \<open>null\<close>. A finite number is written by
  \<open>Number::toString\<close>: a safe integer by its digits, and \<open>JDouble t\<close> by \<open>t\<close>, which is that
  text. (An integer outside the safe range is no value of the model; it is written as the
  double nearest to it is.)\<close>

fun serialize :: "jsval \<Rightarrow> string option"
  and serialize_elems :: "jsval list \<Rightarrow> string list"
  and serialize_members :: "(string \<times> jsval) list \<Rightarrow> string list" where
  "serialize JUndefined = None"
| "serialize JNull = Some ''null''"
| "serialize (JBool b) = Some (if b then ''true'' else ''false'')"
| "serialize (JNum i) =
     Some (if \<bar>i\<bar> \<le> 9007199254740991 then show_int i
           else case nearest_double (nat \<bar>i\<bar>) 1 of
                  None \<Rightarrow> ''null''
                | Some x \<Rightarrow> (if i < 0 then ''-'' else []) @ number_text x)"
| "serialize JNaN = Some ''null''"
| "serialize (JInfinity b) = Some ''null''"
| "serialize (JDouble t) = Some t"
| "serialize (JStr s) = Some (quote s)"
| "serialize (JArr vs) = Some (CHR ''['' # join (serialize_elems vs) @ '']'')"
| "serialize (JObj ps) = Some (CHR ''{'' # join (serialize_members ps) @ ''}'')"
| "serialize_elems [] = []"
| "serialize_elems (v # vs) =
     (case serialize v of None \<Rightarrow> ''null'' | Some t \<Rightarrow> t) # serialize_elems vs"
| "serialize_members [] = []"
| "serialize_members (p # ps) =
     (case serialize (snd p) of
        None \<Rightarrow> serialize_members ps
      | Some t \<Rightarrow> (quote (fst p) @ CHR '':'' # t) # serialize_members ps)"

definition JSON_stringify :: "jsval \<Rightarrow> string option" where
  "JSON_stringify v = serialize v"

subsection \<open>\<open>JSON.parse\<close>\<close>

definition is_ws :: "char \<Rightarrow> bool" where
  "is_ws c \<longleftrightarrow> c = CHR '' '' \<or> c = CHR 0x09 \<or> c = CHR 0x0A \<or> c = CHR 0x0D"

definition skip_ws :: "string \<Rightarrow> string" where
  "skip_ws s = dropWhile is_ws s"

fun strip_prefix :: "string \<Rightarrow> string \<Rightarrow> string option" where
  "strip_prefix [] s = Some s"
| "strip_prefix (p # ps) [] = None"
| "strip_prefix (p # ps) (c # s) = (if p = c then strip_prefix ps s else None)"

definition hex_val :: "char \<Rightarrow> nat option" where
  "hex_val c = (let n = (of_char c :: nat) in
     if 48 \<le> n \<and> n \<le> 57 then Some (n - 48)
     else if 97 \<le> n \<and> n \<le> 102 then Some (n - 87)
     else if 65 \<le> n \<and> n \<le> 70 then Some (n - 55)
     else None)"

definition unescape :: "char \<Rightarrow> char option" where
  "unescape e =
    (if e = CHR 0x22 \<or> e = CHR 0x5C \<or> e = CHR ''/'' then Some e
     else if e = CHR ''b'' then Some (CHR 0x08)
     else if e = CHR ''f'' then Some (CHR 0x0C)
     else if e = CHR ''n'' then Some (CHR 0x0A)
     else if e = CHR ''r'' then Some (CHR 0x0D)
     else if e = CHR ''t'' then Some (CHR 0x09)
     else None)"

text \<open>The characters of a string literal after its opening quotation mark, up to the
  closing one. A \<open>\<bsol>uXXXX\<close> escape above \<open>0x00FF\<close> names a code unit that the character type
  of the model does not have; it is read modulo \<open>0x100\<close>.\<close>

fun parse_string :: "string \<Rightarrow> (string \<times> string) option" where
  "parse_string [] = None"
| "parse_string (c # r) =
    (if c = CHR 0x22 then Some ([], r)
     else if c = CHR 0x5C then
       (case r of
          [] \<Rightarrow> None
        | e # r1 \<Rightarrow>
           if e = CHR ''u'' then
             (case r1 of
                a # b # c' # d # r2 \<Rightarrow>
                  (case (hex_val a, hex_val b, hex_val c', hex_val d) of
                     (Some x, Some y, Some z, Some w) \<Rightarrow>
                       map_option (apfst ((#) (char_of (((x * 16 + y) * 16 + z) * 16 + w))))
                         (parse_string r2)
                   | _ \<Rightarrow> None)
              | _ \<Rightarrow> None)
           else
             (case unescape e of
                None \<Rightarrow> None
              | Some ch \<Rightarrow> map_option (apfst ((#) ch)) (parse_string r1)))
     else if (of_char c :: nat) < 32 then None
     else map_option (apfst ((#) c)) (parse_string r))"

definition parse_frac :: "string \<Rightarrow> (string \<times> string) option" where
  "parse_frac s =
    (case s of
       [] \<Rightarrow> Some ([], s)
     | c # r \<Rightarrow>
        if c = CHR ''.'' then
          (if takeWhile is_digit r = [] then None
           else Some (c # takeWhile is_digit r, dropWhile is_digit r))
        else Some ([], s))"

definition parse_exp :: "string \<Rightarrow> (string \<times> string) option" where
  "parse_exp s =
    (case s of
       [] \<Rightarrow> Some ([], s)
     | c # r \<Rightarrow>
        if c = CHR ''e'' \<or> c = CHR ''E'' then
          (let sg = (case r of [] \<Rightarrow> [] | x # r' \<Rightarrow> if x = CHR ''+'' \<or> x = CHR ''-'' then [x] else []);
               r1 = drop (length sg) r
           in if takeWhile is_digit r1 = [] then None
              else Some (c # sg @ takeWhile is_digit r1, dropWhile is_digit r1))
        else Some ([], s))"

text \<open>The number that a literal denotes, from its sign, its integer part \<open>ip\<close>, its
  fraction \<open>fr\<close> (with the point) and its exponent part \<open>ex\<close> (with the letter): the double
  nearest to the decimal, in the representation of the model. A literal of a safe integer
  denotes that integer.\<close>

definition exponent_value :: "string \<Rightarrow> int" where
  "exponent_value ex =
    (case ex of
       [] \<Rightarrow> 0
     | e # r \<Rightarrow>
        (case r of
           [] \<Rightarrow> 0
         | x # ds \<Rightarrow>
            if x = CHR ''-'' then - int (nat_of_digits ds)
            else if x = CHR ''+'' then int (nat_of_digits ds)
            else int (nat_of_digits r)))"

definition number_of_double :: "bool \<Rightarrow> double \<Rightarrow> jsval" where
  "number_of_double neg x =
    (case double_integer x of
       None \<Rightarrow> JDouble ((if neg then ''-'' else []) @ number_text x)
     | Some i \<Rightarrow>
        if i \<le> 9007199254740991 then JNum (if neg then - int i else int i)
        else JDouble ((if neg then ''-'' else []) @ number_text x))"

definition number_value :: "bool \<Rightarrow> string \<Rightarrow> string \<Rightarrow> string \<Rightarrow> jsval" where
  "number_value neg ip fr ex =
    (if fr = [] \<and> ex = [] \<and> nat_of_digits ip \<le> 9007199254740991
     then JNum (if neg then - int (nat_of_digits ip) else int (nat_of_digits ip))
     else
       (case decimal_double (nat_of_digits (ip @ tl fr))
               (exponent_value ex - int (length (tl fr))) of
          None \<Rightarrow> JInfinity neg
        | Some x \<Rightarrow> number_of_double neg x))"

text \<open>A JSON number: an optional minus sign, an integer part without a leading zero, an
  optional fraction and an optional exponent.\<close>

definition parse_number :: "string \<Rightarrow> (jsval \<times> string) option" where
  "parse_number s =
    (let neg = (case s of [] \<Rightarrow> False | c # r \<Rightarrow> c = CHR ''-'');
         s1 = (if neg then tl s else s)
     in case s1 of
          [] \<Rightarrow> None
        | d # r \<Rightarrow>
           if \<not> is_digit d then None
           else
             (let ip = (if d = CHR ''0'' then [d] else takeWhile is_digit s1);
                  s2 = drop (length ip) s1
              in case parse_frac s2 of
                   None \<Rightarrow> None
                 | Some (fr, s3) \<Rightarrow>
                    (case parse_exp s3 of
                       None \<Rightarrow> None
                     | Some (ex, s4) \<Rightarrow> Some (number_value neg ip fr ex, s4))))"

text \<open>\<open>JSON.parse\<close> builds an object by defining the members in the order of the text, so
  that the last of two members of the same name wins.\<close>

definition build_obj :: "(string \<times> jsval) list \<Rightarrow> jsobj" where
  "build_obj ms = fold (\<lambda>(k, v). obj_set k v) ms []"

text \<open>The recursive descent. The first argument bounds the depth of the recursion; the
  parser is started with more of it than the text has characters, which is enough for
  every text (lemma \<open>JSON_parse_bound\<close> below).\<close>

fun parse_value :: "nat \<Rightarrow> string \<Rightarrow> (jsval \<times> string) option"
  and parse_elems :: "nat \<Rightarrow> string \<Rightarrow> (jsval list \<times> string) option"
  and parse_members :: "nat \<Rightarrow> string \<Rightarrow> ((string \<times> jsval) list \<times> string) option" where
  "parse_value 0 s = None"
| "parse_value (Suc n) s =
    (case skip_ws s of
       [] \<Rightarrow> None
     | c # r \<Rightarrow>
        if c = CHR ''n'' then map_option (Pair JNull) (strip_prefix ''ull'' r)
        else if c = CHR ''t'' then map_option (Pair (JBool True)) (strip_prefix ''rue'' r)
        else if c = CHR ''f'' then map_option (Pair (JBool False)) (strip_prefix ''alse'' r)
        else if c = CHR 0x22 then map_option (apfst JStr) (parse_string r)
        else if c = CHR ''['' then
          (case skip_ws r of
             [] \<Rightarrow> None
           | c1 # r1 \<Rightarrow>
              if c1 = CHR '']'' then Some (JArr [], r1)
              else map_option (apfst JArr) (parse_elems n r))
        else if c = CHR ''{'' then
          (case skip_ws r of
             [] \<Rightarrow> None
           | c1 # r1 \<Rightarrow>
              if c1 = CHR ''}'' then Some (JObj [], r1)
              else map_option (apfst (\<lambda>ms. JObj (build_obj ms))) (parse_members n r))
        else parse_number (c # r))"
| "parse_elems 0 s = None"
| "parse_elems (Suc n) s =
    (case parse_value n s of
       None \<Rightarrow> None
     | Some (v, r) \<Rightarrow>
        (case skip_ws r of
           [] \<Rightarrow> None
         | c # r1 \<Rightarrow>
            if c = CHR '','' then map_option (apfst ((#) v)) (parse_elems n r1)
            else if c = CHR '']'' then Some ([v], r1)
            else None))"
| "parse_members 0 s = None"
| "parse_members (Suc n) s =
    (case skip_ws s of
       [] \<Rightarrow> None
     | c # r \<Rightarrow>
        if c \<noteq> CHR 0x22 then None
        else
          (case parse_string r of
             None \<Rightarrow> None
           | Some (k, r1) \<Rightarrow>
              (case skip_ws r1 of
                 [] \<Rightarrow> None
               | c1 # r2 \<Rightarrow>
                  if c1 \<noteq> CHR '':'' then None
                  else
                    (case parse_value n r2 of
                       None \<Rightarrow> None
                     | Some (v, r3) \<Rightarrow>
                        (case skip_ws r3 of
                           [] \<Rightarrow> None
                         | c2 # r4 \<Rightarrow>
                            if c2 = CHR '','' then
                              map_option (apfst ((#) (k, v))) (parse_members n r4)
                            else if c2 = CHR ''}'' then Some ([(k, v)], r4)
                            else None)))))"

definition JSON_parse :: "string \<Rightarrow> error + jsval" where
  "JSON_parse s =
    (case parse_value (Suc (length s)) s of
       None \<Rightarrow> Inl SyntaxError
     | Some (v, r) \<Rightarrow> if skip_ws r = [] then Inr v else Inl SyntaxError)"

section \<open>The serialization codec\<close>

text \<open>The module \<^verbatim>\<open>./utils/serialization\<close>: \<open>defaultSerialize\<close> is \<open>JSON.stringify\<close> and
  \<open>defaultDeserialize\<close> is \<open>JSON.parse\<close>; a text that is not JSON makes the latter throw.\<close>

definition defaultSerialize :: "jsval \<Rightarrow> string option" where
  "defaultSerialize v = JSON_stringify v"

definition defaultDeserialize :: "string \<Rightarrow> error + jsval" where
  "defaultDeserialize raw = JSON_parse raw"

section \<open>The storage primitive\<close>

text \<open>
  \<open>window.localStorage\<close> is a store of strings under string keys whose three operations
  may throw: \<open>setItem\<close> when the quota is exceeded, every one of them when the host denies
  access or has no storage at all. The record holds the contents and, for each operation,
  the arguments on which it throws.
\<close>

record localStorage =
  items :: "string \<rightharpoonup> string"
  setItem_throws :: "string \<Rightarrow> string \<Rightarrow> bool"
  getItem_throws :: "string \<Rightarrow> bool"
  removeItem_throws :: "string \<Rightarrow> bool"

definition setItem :: "localStorage \<Rightarrow> string \<Rightarrow> string \<Rightarrow> error + localStorage" where
  "setItem ls k v =
    (if setItem_throws ls k v then Inl DOMException
     else Inr (ls\<lparr>items := (items ls)(k \<mapsto> v)\<rparr>))"

definition getItem :: "localStorage \<Rightarrow> string \<Rightarrow> error + string option" where
  "getItem ls k = (if getItem_throws ls k then Inl DOMException else Inr (items ls k))"

definition removeItem :: "localStorage \<Rightarrow> string \<Rightarrow> error + localStorage" where
  "removeItem ls k =
    (if removeItem_throws ls k then Inl DOMException
     else Inr (ls\<lparr>items := (items ls)(k := None)\<rparr>))"

text \<open>\<^verbatim>\<open>src/lib/utils/isLocalStorageAvailable.ts\<close>: the probe writes and removes a test
  key and answers \<open>false\<close> as soon as one of the two throws. It returns the storage as the
  probe leaves it.\<close>

definition testKey :: string where
  "testKey = ''__ls_test__''"

definition isLocalStorageAvailable :: "localStorage \<Rightarrow> bool \<times> localStorage" where
  "isLocalStorageAvailable ls =
    (case setItem ls testKey ''1'' of
       Inl e \<Rightarrow> (False, ls)
     | Inr ls1 \<Rightarrow>
        (case removeItem ls1 testKey of
           Inl e \<Rightarrow> (False, ls1)
         | Inr ls2 \<Rightarrow> (True, ls2)))"

text \<open>\<^verbatim>\<open>src/lib/utils/readLocalStorage.ts\<close>: \<open>None\<close> is the result \<open>undefined\<close>.\<close>

definition readLocalStorage ::
  "localStorage \<Rightarrow> string \<Rightarrow> (string \<Rightarrow> error + 'a) \<Rightarrow> 'a option \<times> localStorage" where
  "readLocalStorage ls k deserialize =
    (case isLocalStorageAvailable ls of
       (False, ls1) \<Rightarrow> (None, ls1)
     | (True, ls1) \<Rightarrow>
        (case getItem ls1 k of
           Inl e \<Rightarrow> (None, ls1)
         | Inr None \<Rightarrow> (None, ls1)
         | Inr (Some raw) \<Rightarrow>
            (case deserialize raw of
               Inl e \<Rightarrow> (None, ls1)
             | Inr v \<Rightarrow> (Some v, ls1))))"

text \<open>\<^verbatim>\<open>src/lib/utils/writeLocalStorage.ts\<close>\<close>

definition writeLocalStorage ::
  "localStorage \<Rightarrow> string \<Rightarrow> 'a \<Rightarrow> ('a \<Rightarrow> error + string) \<Rightarrow> localStorage" where
  "writeLocalStorage ls k v serialize_fn =
    (case isLocalStorageAvailable ls of
       (False, ls1) \<Rightarrow> ls1
     | (True, ls1) \<Rightarrow>
        (case serialize_fn v of
           Inl e \<Rightarrow> ls1
         | Inr serialized \<Rightarrow>
            (case setItem ls1 k serialized of
               Inl e \<Rightarrow> ls1
             | Inr ls2 \<Rightarrow> ls2)))"

text \<open>\<^verbatim>\<open>src/lib/utils/removeLocalStorage.ts\<close>\<close>

definition removeLocalStorage :: "localStorage \<Rightarrow> string \<Rightarrow> localStorage" where
  "removeLocalStorage ls k =
    (case isLocalStorageAvailable ls of
       (False, ls1) \<Rightarrow> ls1
     | (True, ls1) \<Rightarrow>
        (case removeItem ls1 k of
           Inl e \<Rightarrow> ls1
         | Inr ls2 \<Rightarrow> ls2))"

section \<open>The hook\<close>

subsection \<open>Options\<close>

text \<open>
  \<^verbatim>\<open>src/lib/types.ts\<close>. An optional option is an \<open>option\<close>, except \<open>syncAcrossTabs\<close>,
  which holds the value that the hook works with once the default \<open>true\<close> has been filled
  in (line 23). The callbacks \<open>sanitize\<close> and \<open>migrate\<close> may throw. The observer
  \<open>onChange\<close> is called for its effect: it is a function on the state \<open>'o\<close> of whoever
  observes, which the hook carries along.
\<close>

record codec =
  parse :: "string \<Rightarrow> jsval"
  format :: "jsval \<Rightarrow> string"

datatype source = Set | Patch | External

record 'o options =
  key :: string
  codecs :: "(string \<rightharpoonup> codec) option"
  sanitize :: "(jsval \<Rightarrow> error + jsval) option"
  onChange :: "(jsobj \<Rightarrow> source \<Rightarrow> 'o \<Rightarrow> 'o) option"
  syncAcrossTabs :: bool
  version :: "int option"
  migrate :: "(jsval \<Rightarrow> int \<Rightarrow> error + jsval) option"

text \<open>Modelled from the spec: \<^verbatim>\<open>src/lib/utils/mergeWithDefaults.ts\<close> is not among the
  sources. By the overlay rule of the specification (4.3) every field present in the
  partial value overrides the default field of that name, a field absent from the partial
  value is taken from the defaults, a field absent from both is absent from the result,
  and values are replaced whole. A partial value that is not an object has no field.\<close>

definition own_fields :: "jsval \<Rightarrow> jsobj" where
  "own_fields v = (case v of JObj ps \<Rightarrow> ps | _ \<Rightarrow> [])"

definition mergeWithDefaults :: "jsval \<Rightarrow> jsobj \<Rightarrow> jsobj" where
  "mergeWithDefaults partial defaults = spread defaults (own_fields partial)"

subsection \<open>The read pipeline\<close>

text \<open>\<open>readAll\<close> (lines 33 to 46). The test \<open>!raw\<close> holds of \<open>undefined\<close> and of the
  empty string. The \<open>catch\<close> covers the decoding and the migration.\<close>

definition readAll :: "'o options \<Rightarrow> localStorage \<Rightarrow> jsval \<times> localStorage" where
  "readAll opts ls =
    (case isLocalStorageAvailable ls of
       (False, ls1) \<Rightarrow> (JObj [], ls1)
     | (True, ls1) \<Rightarrow>
        (case readLocalStorage ls1 (key opts) Inr of
           (None, ls2) \<Rightarrow> (JObj [], ls2)
         | (Some raw, ls2) \<Rightarrow>
            if raw = [] then (JObj [], ls2)
            else
              (case defaultDeserialize raw of
                 Inl e \<Rightarrow> (JObj [], ls2)
               | Inr parsed \<Rightarrow>
                  (case (version opts, migrate opts) of
                     (Some ver, Some mig) \<Rightarrow>
                       (case mig parsed ver of
                          Inl e \<Rightarrow> (JObj [], ls2)
                        | Inr migrated \<Rightarrow> (migrated, ls2))
                   | _ \<Rightarrow> (parsed, ls2)))))"

text \<open>\<open>readInitial\<close> (lines 48 to 52). The sanitizer is called outside every \<open>try\<close>: when
  it throws, so does \<open>readInitial\<close>. The second argument is the constant \<open>defaults\<close> of
  line 28, the resolved defaults.\<close>

definition readInitial ::
  "'o options \<Rightarrow> jsobj \<Rightarrow> localStorage \<Rightarrow> (error + jsobj) \<times> localStorage" where
  "readInitial opts defaults ls =
    (case readAll opts ls of
       (persisted, ls1) \<Rightarrow>
        (case sanitize opts of
           None \<Rightarrow> (Inr (mergeWithDefaults persisted defaults), ls1)
         | Some f \<Rightarrow>
            (case f persisted of
               Inl e \<Rightarrow> (Inl e, ls1)
             | Inr sanitized \<Rightarrow> (Inr (mergeWithDefaults sanitized defaults), ls1))))"

subsection \<open>The mounted hook\<close>

text \<open>
  A mounted hook is the content of its React state cell, the storage of the window it runs
  in, and the state of its observer. An updater passed to React's \<open>setState\<close> is run once.
\<close>

record 'o hook =
  state :: jsobj
  storage :: localStorage
  observer :: 'o

text \<open>\<open>onChange?.(next, { source })\<close>\<close>

definition notify :: "'o options \<Rightarrow> jsobj \<Rightarrow> source \<Rightarrow> 'o \<Rightarrow> 'o" where
  "notify opts next src obs = (case onChange opts of None \<Rightarrow> obs | Some f \<Rightarrow> f next src obs)"

text \<open>\<open>useState(readInitial)\<close> (line 54): mounting runs the read pipeline once.\<close>

definition mount ::
  "'o options \<Rightarrow> jsobj \<Rightarrow> localStorage \<Rightarrow> 'o \<Rightarrow> error + 'o hook" where
  "mount opts defaults ls obs =
    (case readInitial opts defaults ls of
       (Inl e, ls1) \<Rightarrow> Inl e
     | (Inr s, ls1) \<Rightarrow> Inr \<lparr>state = s, storage = ls1, observer = obs\<rparr>)"

text \<open>The listener of the \<open>storage\<close> event (lines 58 to 68). \<open>event.key\<close> is \<open>null\<close> when the
  whole storage was cleared. The first component of the result is the error that the
  handler lets escape, if any.\<close>

definition handler ::
  "'o options \<Rightarrow> jsobj \<Rightarrow> string option \<Rightarrow> 'o hook \<Rightarrow> error option \<times> 'o hook" where
  "handler opts defaults event_key h =
    (if event_key \<noteq> Some (key opts) then (None, h)
     else
       (case readInitial opts defaults (storage h) of
          (Inl e, ls1) \<Rightarrow> (Some e, h\<lparr>storage := ls1\<rparr>)
        | (Inr next, ls1) \<Rightarrow>
           (None, h\<lparr>state := next, storage := ls1,
                     observer := notify opts next External (observer h)\<rparr>)))"

text \<open>The effect registers the handler only when \<open>syncAcrossTabs\<close> is set.\<close>

definition storage_event ::
  "'o options \<Rightarrow> jsobj \<Rightarrow> string option \<Rightarrow> 'o hook \<Rightarrow> error option \<times> 'o hook" where
  "storage_event opts defaults event_key h =
    (if \<not> syncAcrossTabs opts then (None, h) else handler opts defaults event_key h)"

subsection \<open>The write path and the mutation API\<close>

text \<open>\<open>writeFull\<close> (lines 70 to 77). The State is an object, for which \<open>JSON.stringify\<close>
  returns a string; \<open>setItem\<close> would store the text \<open>undefined\<close> otherwise.\<close>

definition writeFull :: "'o options \<Rightarrow> localStorage \<Rightarrow> jsobj \<Rightarrow> localStorage" where
  "writeFull opts ls next =
    (case isLocalStorageAvailable ls of
       (False, ls1) \<Rightarrow> ls1
     | (True, ls1) \<Rightarrow>
        writeLocalStorage ls1 (key opts)
          (case defaultSerialize (JObj next) of None \<Rightarrow> ''undefined'' | Some t \<Rightarrow> t) Inr)"

datatype action = Value jsobj | Updater "jsobj \<Rightarrow> jsobj"

definition api_setState :: "'o options \<Rightarrow> action \<Rightarrow> 'o hook \<Rightarrow> 'o hook" where
  "api_setState opts updater h =
    (let prev = state h;
         next = (case updater of Updater f \<Rightarrow> f prev | Value v \<Rightarrow> v)
     in \<lparr>state = next,
         storage = writeFull opts (storage h) next,
         observer = notify opts next Set (observer h)\<rparr>)"

definition api_get :: "'o hook \<Rightarrow> string \<Rightarrow> jsval" where
  "api_get h k = obj_get (state h) k"

definition api_set :: "'o options \<Rightarrow> string \<Rightarrow> jsval \<Rightarrow> 'o hook \<Rightarrow> 'o hook" where
  "api_set opts k v h =
    (let prev = state h;
         next = (if v = JUndefined then obj_delete k prev else obj_assign k v prev)
     in \<lparr>state = next,
         storage = writeFull opts (storage h) next,
         observer = notify opts next Patch (observer h)\<rparr>)"

definition api_patch :: "'o options \<Rightarrow> jsobj \<Rightarrow> 'o hook \<Rightarrow> 'o hook" where
  "api_patch opts partial h =
    (let prev = state h;
         next = spread prev partial
     in \<lparr>state = next,
         storage = writeFull opts (storage h) next,
         observer = notify opts next Patch (observer h)\<rparr>)"

definition api_remove :: "'o options \<Rightarrow> string list \<Rightarrow> 'o hook \<Rightarrow> 'o hook" where
  "api_remove opts ks h =
    (let prev = state h;
         next = fold obj_delete ks prev
     in \<lparr>state = next,
         storage = writeFull opts (storage h) next,
         observer = notify opts next Patch (observer h)\<rparr>)"

definition api_clear :: "'o options \<Rightarrow> 'o hook \<Rightarrow> 'o hook" where
  "api_clear opts h =
    \<lparr>state = [], storage = removeLocalStorage (storage h) (key opts), observer = observer h\<rparr>"

section \<open>Example configurations\<close>

text \<open>An observer that records its calls, three storages (one that works, one whose quota
  is used up so that every write throws, and a window with no storage at all, where every
  access throws), and the options of the test suite.\<close>

type_synonym trace = "(jsobj \<times> source) list"

definition record_call :: "jsobj \<Rightarrow> source \<Rightarrow> trace \<Rightarrow> trace" where
  "record_call next src calls = calls @ [(next, src)]"

definition working_storage :: "(string \<rightharpoonup> string) \<Rightarrow> localStorage" where
  "working_storage m =
    \<lparr>items = m, setItem_throws = (\<lambda>k v. False), getItem_throws = (\<lambda>k. False),
     removeItem_throws = (\<lambda>k. False)\<rparr>"

definition full_storage :: "(string \<rightharpoonup> string) \<Rightarrow> localStorage" where
  "full_storage m =
    \<lparr>items = m, setItem_throws = (\<lambda>k v. True), getItem_throws = (\<lambda>k. False),
     removeItem_throws = (\<lambda>k. False)\<rparr>"

definition no_storage :: localStorage where
  "no_storage =
    \<lparr>items = Map.empty, setItem_throws = (\<lambda>k v. True), getItem_throws = (\<lambda>k. True),
     removeItem_throws = (\<lambda>k. True)\<rparr>"

definition prefs_options :: "trace options" where
  "prefs_options =
    \<lparr>key = ''prefs'', codecs = None, sanitize = None, onChange = Some record_call,
     syncAcrossTabs = True, version = None, migrate = None\<rparr>"

text \<open>The sanitizer \<open>(draft) => ({ theme: "light", ...draft })\<close> and the migration of the
  test "handles migration function errors".\<close>

definition fill_theme :: "jsval \<Rightarrow> error + jsval" where
  "fill_theme draft = Inr (JObj (spread [(''theme'', JStr ''light'')] (own_fields draft)))"

definition failing_migrate :: "jsval \<Rightarrow> int \<Rightarrow> error + jsval" where
  "failing_migrate stored_value ver = Inl (Error ''Migration failed'')"

text \<open>The JSON text of \<open>{ theme: "dark" }\<close>.\<close>

definition theme_dark_text :: string where
  "theme_dark_text =
    ''{'' @ [CHR 0x22] @ ''theme'' @ [CHR 0x22] @ '':'' @ [CHR 0x22] @ ''dark'' @ [CHR 0x22] @ ''}''"

text \<open>A codec that writes a string with a leading \<open>#\<close>.\<close>

definition hash_codec :: codec where
  "hash_codec =
    \<lparr>parse = (\<lambda>raw. JStr (tl raw)),
     format = (\<lambda>v. case v of JStr s \<Rightarrow> CHR ''#'' # s | _ \<Rightarrow> ''#'')\<rparr>"

section \<open>Values that JSON can represent\<close>

text \<open>
  The values that JSON text can hold: \<open>null\<close>, the booleans, the finite numbers, strings,
  and arrays and objects of such values. \<open>undefined\<close>, \<open>NaN\<close> and the infinities are not
  among them at any depth. The values are taken in the representation that the model gives
  them: a \<open>JNum\<close> is a safe integer, and the text \<open>t\<close> of a \<open>JDouble t\<close> is the text of a
  number that is not a safe integer, which is to say that \<open>t\<close> read as a literal is the
  number \<open>JDouble t\<close>. The list of an object's properties has no name twice and is in the
  order of enumeration, as for every real object.
\<close>

fun json_representable :: "jsval \<Rightarrow> bool"
  and json_representables :: "jsval list \<Rightarrow> bool"
  and json_members :: "(string \<times> jsval) list \<Rightarrow> bool" where
  "json_representable JUndefined = False"
| "json_representable JNull = True"
| "json_representable (JBool b) = True"
| "json_representable (JNum i) = (\<bar>i\<bar> \<le> 9007199254740991)"
| "json_representable JNaN = False"
| "json_representable (JInfinity b) = False"
| "json_representable (JDouble t) = (parse_number t = Some (JDouble t, []))"
| "json_representable (JStr s) = True"
| "json_representable (JArr vs) = json_representables vs"
| "json_representable (JObj ps) =
     (distinct (map fst ps) \<and> key_order (map fst ps) \<and> json_members ps)"
| "json_representables [] = True"
| "json_representables (v # vs) = (json_representable v \<and> json_representables vs)"
| "json_members [] = True"
| "json_members (p # ps) = (json_representable (snd p) \<and> json_members ps)"

text \<open>What follows a value in a JSON text: nothing, a comma or a closing bracket or brace.\<close>

definition delimited :: "string \<Rightarrow> bool" where
  "delimited rest \<longleftrightarrow>
     rest = [] \<or> hd rest = CHR '','' \<or> hd rest = CHR '']'' \<or> hd rest = CHR ''}''"


section \<open>Property names\<close>

lemma array_index_no_digit: "k = [] \<or> \<not> is_digit (hd k) \<Longrightarrow> array_index k = None"
  by (cases k) (auto simp: array_index_def)

lemma obj_set_name:
  assumes "k = [] \<or> \<not> is_digit (hd k)"
  shows "obj_set k v ps = (if k \<in> fst ` set ps then obj_replace k v ps else ps @ [(k, v)])"
  by (simp add: obj_set_def obj_add_def array_index_no_digit [OF assms])

lemma obj_set_empty: "obj_set k v [] = [(k, v)]"
  by (simp add: obj_set_def obj_add_def split: option.splits)

lemma no_digit_simps:
  "\<not> is_digit (CHR ''t'')" "\<not> is_digit (CHR ''p'')" "\<not> is_digit (CHR ''s'')"
  "\<not> is_digit (CHR ''c'')" "\<not> is_digit (CHR ''v'')" "\<not> is_digit (CHR ''_'')"
  by (simp_all add: is_digit_def)

section \<open>The storage probe and the read pipeline\<close>

lemma probe_eq:
  "isLocalStorageAvailable ls =
     (if setItem_throws ls testKey ''1'' then (False, ls)
      else if removeItem_throws ls testKey
        then (False, ls\<lparr>items := (items ls)(testKey \<mapsto> ''1'')\<rparr>)
        else (True, ls\<lparr>items := (items ls)(testKey := None)\<rparr>))"
  by (simp add: isLocalStorageAvailable_def setItem_def removeItem_def)

lemma readLocalStorage_raw:
  "readLocalStorage ls k Inr =
     (if fst (isLocalStorageAvailable ls) \<and> \<not> getItem_throws ls k \<and> k \<noteq> testKey
      then items ls k else None, snd (isLocalStorageAvailable ls))"
  by (simp add: readLocalStorage_def probe_eq getItem_def split: option.splits)

text \<open>What \<open>readAll\<close> returns, in terms of the record that the guarded read finds.\<close>

lemma readAll_value:
  "fst (readAll opts ls) =
     (case (if fst (isLocalStorageAvailable ls) \<and> \<not> getItem_throws ls (key opts)
                \<and> key opts \<noteq> testKey
            then items ls (key opts) else None) of
        None \<Rightarrow> JObj []
      | Some raw \<Rightarrow>
         if raw = [] then JObj []
         else (case defaultDeserialize raw of
                 Inl e \<Rightarrow> JObj []
               | Inr parsed \<Rightarrow>
                  (case (version opts, migrate opts) of
                     (Some ver, Some mig) \<Rightarrow>
                       (case mig parsed ver of Inl e \<Rightarrow> JObj [] | Inr migrated \<Rightarrow> migrated)
                   | _ \<Rightarrow> parsed)))"
  by (simp add: readAll_def readLocalStorage_raw probe_eq split: option.splits sum.splits)

lemma readAll_storage: "snd (readAll opts ls) = snd (isLocalStorageAvailable ls)"
  by (simp add: readAll_def readLocalStorage_raw probe_eq split: option.splits sum.splits)

lemma mergeWithDefaults_empty: "mergeWithDefaults (JObj []) D = D"
  by (simp add: mergeWithDefaults_def own_fields_def spread_def)

lemma readInitial_value:
  "fst (readInitial opts D ls) =
     (case sanitize opts of
        None \<Rightarrow> Inr (mergeWithDefaults (fst (readAll opts ls)) D)
      | Some f \<Rightarrow>
         (case f (fst (readAll opts ls)) of
            Inl e \<Rightarrow> Inl e
          | Inr sanitized \<Rightarrow> Inr (mergeWithDefaults sanitized D)))"
  by (simp add: readInitial_def split: prod.splits option.splits sum.splits)

lemma readInitial_storage: "snd (readInitial opts D ls) = snd (isLocalStorageAvailable ls)"
  using readAll_storage [of opts ls]
  by (auto simp add: readInitial_def split: prod.splits option.splits sum.splits)

text \<open>When \<open>readAll\<close> yields the empty partial, the State is made from the defaults and from
  what the sanitizer, if there is one, makes of the empty partial.\<close>

lemma readInitial_of_empty:
  assumes "fst (readAll opts ls) = JObj []"
  shows "fst (readInitial opts D ls) =
     (case sanitize opts of
        None \<Rightarrow> Inr D
      | Some f \<Rightarrow>
         (case f (JObj []) of
            Inl e \<Rightarrow> Inl e
          | Inr sanitized \<Rightarrow> Inr (mergeWithDefaults sanitized D)))"
  by (simp add: readInitial_value assms mergeWithDefaults_empty split: option.splits)

lemma working_storage_available: "fst (isLocalStorageAvailable (working_storage m))"
  by (simp add: probe_eq working_storage_def)

lemma full_storage_unavailable: "\<not> fst (isLocalStorageAvailable (full_storage m))"
  by (simp add: probe_eq full_storage_def)

lemma no_storage_unavailable: "\<not> fst (isLocalStorageAvailable no_storage)"
  by (simp add: probe_eq no_storage_def)

lemma parse_invalid_json: "defaultDeserialize ''invalid-json'' = Inl SyntaxError"
  by code_simp

lemma parse_theme_dark: "defaultDeserialize theme_dark_text = Inr (JObj [(''theme'', JStr ''dark'')])"
  by code_simp

lemma serialize_theme_dark:
  "defaultSerialize (JObj [(''theme'', JStr ''dark'')]) = Some theme_dark_text"
  by code_simp

section \<open>Reading with nothing usable in the storage\<close>

text \<open>
  C1 (as amended). Let the storage pass the availability probe and hold no record under
  the configured key. Without a sanitizer \<open>readInitial\<close> returns exactly the defaults
  \<open>D\<close>: every default field keeps its value and no field is added. With a sanitizer, the
  sanitizer is applied to the empty partial and its output is overlaid on \<open>D\<close>.
\<close>

theorem readInitial_no_record:
  assumes "fst (isLocalStorageAvailable ls)" and "items ls (key opts) = None"
  shows "fst (readInitial opts D ls) =
     (case sanitize opts of
        None \<Rightarrow> Inr D
      | Some f \<Rightarrow>
         (case f (JObj []) of
            Inl e \<Rightarrow> Inl e
          | Inr sanitized \<Rightarrow> Inr (mergeWithDefaults sanitized D)))"
proof -
  have "fst (readAll opts ls) = JObj []"
    using assms by (simp add: readAll_value)
  then show ?thesis
    by (rule readInitial_of_empty)
qed

theorem readInitial_no_record_witness:
  "fst (isLocalStorageAvailable (working_storage Map.empty))
   \<and> items (working_storage Map.empty) (key prefs_options) = None
   \<and> fst (readInitial prefs_options [(''theme'', JStr ''light''), (''cols'', JArr [])]
            (working_storage Map.empty))
       = Inr [(''theme'', JStr ''light''), (''cols'', JArr [])]"
proof -
  have a: "fst (isLocalStorageAvailable (working_storage Map.empty))"
    by (rule working_storage_available)
  have b: "items (working_storage Map.empty) (key prefs_options) = None"
    by (simp add: working_storage_def)
  show ?thesis
    using a b readInitial_no_record [OF a b, of "[(''theme'', JStr ''light''), (''cols'', JArr [])]"]
    by (simp add: prefs_options_def)
qed

text \<open>The claim as it stands fails with a sanitizer that fills in a field: the storage is
  available and empty, the defaults are \<open>{ page: 1 }\<close>, and the State has a \<open>theme\<close>.\<close>

theorem readInitial_no_record_counterexample:
  "fst (isLocalStorageAvailable (working_storage Map.empty))
   \<and> items (working_storage Map.empty) (key (prefs_options\<lparr>sanitize := Some fill_theme\<rparr>)) = None
   \<and> fst (readInitial (prefs_options\<lparr>sanitize := Some fill_theme\<rparr>) [(''page'', JNum 1)]
            (working_storage Map.empty))
       = Inr [(''page'', JNum 1), (''theme'', JStr ''light'')]
   \<and> Inr [(''page'', JNum 1), (''theme'', JStr ''light'')] \<noteq> (Inr [(''page'', JNum 1)] :: error + jsobj)"
proof -
  have "fst (readAll (prefs_options\<lparr>sanitize := Some fill_theme\<rparr>) (working_storage Map.empty)) = JObj []"
    by (simp add: readAll_value working_storage_def)
  then show ?thesis
    by (simp add: probe_eq readInitial_value working_storage_def fill_theme_def
        mergeWithDefaults_def own_fields_def spread_def obj_set_name no_digit_simps)
qed

text \<open>
  C10 (as amended). A record that is the empty string is treated like an absent record:
  \<open>readAll\<close> yields the empty partial without decoding or migrating anything, whatever
  version and migration are configured, and \<open>readInitial\<close> returns what it returns when the
  record is absent, which is the defaults when no sanitizer is configured.
\<close>

theorem readInitial_empty_string:
  assumes "items ls (key opts) = Some []"
  shows "fst (readAll opts ls) = JObj []
    \<and> fst (readInitial opts D ls) = fst (readInitial opts D (ls\<lparr>items := (items ls)(key opts := None)\<rparr>))
    \<and> fst (readInitial opts D ls) =
       (case sanitize opts of
          None \<Rightarrow> Inr D
        | Some f \<Rightarrow>
           (case f (JObj []) of
              Inl e \<Rightarrow> Inl e
            | Inr sanitized \<Rightarrow> Inr (mergeWithDefaults sanitized D)))"
proof -
  have here: "fst (readAll opts ls) = JObj []"
    using assms by (simp add: readAll_value)
  have absent: "fst (readAll opts (ls\<lparr>items := (items ls)(key opts := None)\<rparr>)) = JObj []"
    by (simp add: readAll_value)
  have "fst (readInitial opts D ls) = fst (readInitial opts D (ls\<lparr>items := (items ls)(key opts := None)\<rparr>))"
    by (simp only: readInitial_of_empty [OF here] readInitial_of_empty [OF absent])
  with here readInitial_of_empty [OF here, of D] show ?thesis
    by simp
qed

theorem readInitial_empty_string_witness:
  "items (working_storage [''prefs'' \<mapsto> []]) (key prefs_options) = Some []
   \<and> fst (readAll prefs_options (working_storage [''prefs'' \<mapsto> []])) = JObj []
   \<and> fst (readInitial prefs_options [(''theme'', JStr ''light'')] (working_storage [''prefs'' \<mapsto> []]))
       = Inr [(''theme'', JStr ''light'')]"
proof -
  have a: "items (working_storage [''prefs'' \<mapsto> []]) (key prefs_options) = Some []"
    by (simp add: working_storage_def prefs_options_def)
  have "fst (readAll prefs_options (working_storage [''prefs'' \<mapsto> []])) = JObj []"
    and "fst (readInitial prefs_options [(''theme'', JStr ''light'')] (working_storage [''prefs'' \<mapsto> []]))
      = (case sanitize prefs_options of
           None \<Rightarrow> Inr [(''theme'', JStr ''light'')]
         | Some f \<Rightarrow>
            (case f (JObj []) of
               Inl e \<Rightarrow> Inl e
             | Inr sanitized \<Rightarrow> Inr (mergeWithDefaults sanitized [(''theme'', JStr ''light'')])))"
    using readInitial_empty_string [OF a, of "[(''theme'', JStr ''light'')]"] by blast+
  then show ?thesis
    using a by (simp add: prefs_options_def)
qed

text \<open>With the sanitizer that fills in the theme, the empty record under defaults
  \<open>{ page: 1 }\<close> gives a State that is not the defaults.\<close>

theorem readInitial_empty_string_counterexample:
  "items (working_storage [''prefs'' \<mapsto> []]) (key (prefs_options\<lparr>sanitize := Some fill_theme\<rparr>)) = Some []
   \<and> fst (readInitial (prefs_options\<lparr>sanitize := Some fill_theme\<rparr>) [(''page'', JNum 1)]
            (working_storage [''prefs'' \<mapsto> []]))
       = Inr [(''page'', JNum 1), (''theme'', JStr ''light'')]
   \<and> Inr [(''page'', JNum 1), (''theme'', JStr ''light'')] \<noteq> (Inr [(''page'', JNum 1)] :: error + jsobj)"
proof -
  have "fst (readAll (prefs_options\<lparr>sanitize := Some fill_theme\<rparr>) (working_storage [''prefs'' \<mapsto> []])) = JObj []"
    by (simp add: readAll_value working_storage_def prefs_options_def)
  then show ?thesis
    by (simp add: readInitial_value working_storage_def prefs_options_def fill_theme_def
        mergeWithDefaults_def own_fields_def spread_def obj_set_name no_digit_simps)
qed

section \<open>Failures of the read pipeline\<close>

text \<open>
  C3 (as amended). A record that \<open>defaultDeserialize\<close> cannot decode makes \<open>readAll\<close>
  yield the empty partial: the failure is caught and does not leave \<open>readAll\<close>. Without a
  sanitizer \<open>readInitial\<close> then returns the defaults; with one, the sanitizer is applied to
  the empty partial and its output is overlaid on the defaults.
\<close>

theorem readInitial_malformed:
  assumes "items ls (key opts) = Some raw" and "defaultDeserialize raw = Inl e"
  shows "fst (readAll opts ls) = JObj []
    \<and> fst (readInitial opts D ls) =
       (case sanitize opts of
          None \<Rightarrow> Inr D
        | Some f \<Rightarrow>
           (case f (JObj []) of
              Inl e \<Rightarrow> Inl e
            | Inr sanitized \<Rightarrow> Inr (mergeWithDefaults sanitized D)))"
proof -
  have "fst (readAll opts ls) = JObj []"
    using assms by (simp add: readAll_value)
  with readInitial_of_empty [of opts ls D] show ?thesis
    by simp
qed

theorem readInitial_malformed_witness:
  "items (working_storage [''prefs'' \<mapsto> ''invalid-json'']) (key prefs_options) = Some ''invalid-json''
   \<and> defaultDeserialize ''invalid-json'' = Inl SyntaxError
   \<and> fst (readInitial prefs_options [(''theme'', JStr ''light'')]
            (working_storage [''prefs'' \<mapsto> ''invalid-json'']))
       = Inr [(''theme'', JStr ''light'')]"
proof -
  have a: "items (working_storage [''prefs'' \<mapsto> ''invalid-json'']) (key prefs_options)
      = Some ''invalid-json''"
    by (simp add: working_storage_def prefs_options_def)
  show ?thesis
    using a readInitial_malformed [OF a parse_invalid_json, of "[(''theme'', JStr ''light'')]"]
    by (simp add: prefs_options_def parse_invalid_json)
qed

text \<open>The record \<open>invalid-json\<close>, the defaults \<open>{}\<close> and the sanitizer that fills in the
  theme: the State is \<open>{ theme: "light" }\<close>, not the defaults.\<close>

theorem readInitial_malformed_counterexample:
  "items (working_storage [''prefs'' \<mapsto> ''invalid-json'']) (key (prefs_options\<lparr>sanitize := Some fill_theme\<rparr>))
      = Some ''invalid-json''
   \<and> defaultDeserialize ''invalid-json'' = Inl SyntaxError
   \<and> fst (readInitial (prefs_options\<lparr>sanitize := Some fill_theme\<rparr>) []
            (working_storage [''prefs'' \<mapsto> ''invalid-json'']))
       = Inr [(''theme'', JStr ''light'')]
   \<and> Inr [(''theme'', JStr ''light'')] \<noteq> (Inr [] :: error + jsobj)"
proof -
  have "fst (readAll (prefs_options\<lparr>sanitize := Some fill_theme\<rparr>)
      (working_storage [''prefs'' \<mapsto> ''invalid-json''])) = JObj []"
    by (simp add: readAll_value working_storage_def prefs_options_def parse_invalid_json)
  then show ?thesis
    by (simp add: readInitial_value working_storage_def prefs_options_def fill_theme_def
        mergeWithDefaults_def own_fields_def spread_def obj_set_name no_digit_simps parse_invalid_json)
qed

text \<open>
  C2 (as amended). When a version and a migration are configured and the migration throws
  on the decoded record, \<open>readAll\<close> yields the empty partial: nothing of the failed
  migration is kept and its error does not leave \<open>readAll\<close>. Without a sanitizer the State
  is then the defaults; with one, the sanitizer is applied to the empty partial and its
  output is overlaid on the defaults.
\<close>

theorem readInitial_migrate_throws:
  assumes "version opts = Some ver" and "migrate opts = Some mig"
    and "items ls (key opts) = Some raw"
    and "defaultDeserialize raw = Inr parsed" and "mig parsed ver = Inl e"
  shows "fst (readAll opts ls) = JObj []
    \<and> fst (readInitial opts D ls) =
       (case sanitize opts of
          None \<Rightarrow> Inr D
        | Some f \<Rightarrow>
           (case f (JObj []) of
              Inl e \<Rightarrow> Inl e
            | Inr sanitized \<Rightarrow> Inr (mergeWithDefaults sanitized D)))"
proof -
  have "fst (readAll opts ls) = JObj []"
    using assms by (simp add: readAll_value)
  with readInitial_of_empty [of opts ls D] show ?thesis
    by simp
qed

theorem readInitial_migrate_throws_witness:
  "version (prefs_options\<lparr>version := Some 2, migrate := Some failing_migrate\<rparr>) = Some 2
   \<and> migrate (prefs_options\<lparr>version := Some 2, migrate := Some failing_migrate\<rparr>) = Some failing_migrate
   \<and> items (working_storage [''prefs'' \<mapsto> theme_dark_text])
        (key (prefs_options\<lparr>version := Some 2, migrate := Some failing_migrate\<rparr>)) = Some theme_dark_text
   \<and> defaultDeserialize theme_dark_text = Inr (JObj [(''theme'', JStr ''dark'')])
   \<and> failing_migrate (JObj [(''theme'', JStr ''dark'')]) 2 = Inl (Error ''Migration failed'')
   \<and> fst (readInitial (prefs_options\<lparr>version := Some 2, migrate := Some failing_migrate\<rparr>)
            [(''theme'', JStr ''light'')] (working_storage [''prefs'' \<mapsto> theme_dark_text]))
       = Inr [(''theme'', JStr ''light'')]"
proof -
  have a: "version (prefs_options\<lparr>version := Some 2, migrate := Some failing_migrate\<rparr>) = Some 2"
    by simp
  have b: "migrate (prefs_options\<lparr>version := Some 2, migrate := Some failing_migrate\<rparr>)
      = Some failing_migrate"
    by simp
  have c: "items (working_storage [''prefs'' \<mapsto> theme_dark_text])
      (key (prefs_options\<lparr>version := Some 2, migrate := Some failing_migrate\<rparr>)) = Some theme_dark_text"
    by (simp add: working_storage_def prefs_options_def)
  have d: "failing_migrate (JObj [(''theme'', JStr ''dark'')]) 2 = Inl (Error ''Migration failed'')"
    by (simp add: failing_migrate_def)
  show ?thesis
    using a b c d
      readInitial_migrate_throws [OF a b c parse_theme_dark d, of "[(''theme'', JStr ''light'')]"]
    by (simp add: prefs_options_def parse_theme_dark)
qed

text \<open>The same stored record and failing migration, the defaults \<open>{}\<close> and the sanitizer
  that fills in the theme: the State is \<open>{ theme: "light" }\<close>, not the defaults.\<close>

theorem readInitial_migrate_throws_counterexample:
  "items (working_storage [''prefs'' \<mapsto> theme_dark_text])
      (key (prefs_options\<lparr>sanitize := Some fill_theme, version := Some 2, migrate := Some failing_migrate\<rparr>))
      = Some theme_dark_text
   \<and> defaultDeserialize theme_dark_text = Inr (JObj [(''theme'', JStr ''dark'')])
   \<and> failing_migrate (JObj [(''theme'', JStr ''dark'')]) 2 = Inl (Error ''Migration failed'')
   \<and> fst (readInitial
            (prefs_options\<lparr>sanitize := Some fill_theme, version := Some 2, migrate := Some failing_migrate\<rparr>)
            [] (working_storage [''prefs'' \<mapsto> theme_dark_text]))
       = Inr [(''theme'', JStr ''light'')]
   \<and> Inr [(''theme'', JStr ''light'')] \<noteq> (Inr [] :: error + jsobj)"
proof -
  have "fst (readAll
      (prefs_options\<lparr>sanitize := Some fill_theme, version := Some 2, migrate := Some failing_migrate\<rparr>)
      (working_storage [''prefs'' \<mapsto> theme_dark_text])) = JObj []"
    by (simp add: readAll_value working_storage_def prefs_options_def parse_theme_dark
        failing_migrate_def)
  then show ?thesis
    by (simp add: readInitial_value working_storage_def prefs_options_def fill_theme_def
        mergeWithDefaults_def own_fields_def spread_def obj_set_name no_digit_simps parse_theme_dark
        failing_migrate_def)
qed

section \<open>Objects as maps\<close>

lemma map_of_obj_replace:
  "map_of (obj_replace k v ps) = (if k \<in> fst ` set ps then (map_of ps)(k \<mapsto> v) else map_of ps)"
  by (induction ps) (auto simp: fun_eq_iff)

lemma map_of_obj_set: "map_of (obj_set k v ps) = (map_of ps)(k \<mapsto> v)"
proof (cases "k \<in> fst ` set ps")
  case True
  then show ?thesis
    by (simp add: obj_set_def map_of_obj_replace)
next
  case False
  then have "map_of ps k = None"
    by (simp add: map_of_eq_None_iff)
  then have "map_of (xs @ (k, v) # ys) = (map_of ps)(k \<mapsto> v)" if "xs @ ys = ps" for xs ys
    using that by (auto simp: fun_eq_iff map_add_def split: option.splits)
  from this [of ps "[]"] this [OF takeWhile_dropWhile_id] False show ?thesis
    by (simp add: obj_set_def obj_add_def split: option.splits)
qed

lemma map_of_obj_assign:
  "map_of (obj_assign k v ps) =
     (if k = ''__proto__'' \<and> map_of ps k = None then map_of ps else (map_of ps)(k \<mapsto> v))"
  by (auto simp: obj_assign_def map_of_obj_set map_of_eq_None_iff)

lemma map_of_spread: "map_of (spread a b) = map_of a ++ map_of (rev b)"
proof -
  have "map_of (fold (\<lambda>(k, v). obj_set k v) b a) = map_of a ++ map_of (rev b)"
  proof (induction b arbitrary: a)
    case Nil
    then show ?case by simp
  next
    case (Cons p b)
    obtain k v where p: "p = (k, v)"
      by (cases p)
    have "map_of (obj_set k v a) ++ map_of (rev b) = map_of a ++ (map_of (rev b))(k \<mapsto> v) ++ map_of (rev b)"
      by (auto simp: map_of_obj_set fun_eq_iff map_add_def split: option.splits)
    then show ?case
      using Cons [of "obj_set k v a"] p
      by (auto simp: fun_eq_iff map_add_def map_of_obj_set split: option.splits)
  qed
  then show ?thesis
    by (simp add: spread_def)
qed

lemma map_of_obj_delete: "map_of (obj_delete k ps) = (map_of ps)(k := None)"
  by (induction ps) (auto simp: obj_delete_def fun_eq_iff)

lemma fold_obj_delete: "fold obj_delete ks ps = filter (\<lambda>p. fst p \<notin> set ks) ps"
proof (induction ks arbitrary: ps)
  case Nil
  then show ?case by simp
next
  case (Cons k ks)
  have "filter (\<lambda>p. fst p \<notin> set ks) (obj_delete k ps) = filter (\<lambda>p. fst p \<notin> set (k # ks)) ps"
    by (induction ps) (auto simp: obj_delete_def)
  with Cons show ?case by simp
qed

lemma map_of_fold_obj_delete:
  "map_of (fold obj_delete ks ps) = (\<lambda>k. if k \<in> set ks then None else map_of ps k)"
proof (induction ks arbitrary: ps)
  case Nil
  then show ?case by simp
next
  case (Cons k ks)
  then show ?case
    by (auto simp: map_of_obj_delete fun_eq_iff)
qed

section \<open>Writing without storage\<close>

lemma writeFull_unavailable:
  "\<not> fst (isLocalStorageAvailable ls) \<Longrightarrow> writeFull opts ls next = snd (isLocalStorageAvailable ls)"
  by (simp add: writeFull_def probe_eq split: if_splits)

text \<open>
  C4. When the availability probe fails, each of the four write paths leaves the storage
  as the failed probe leaves it (nothing is written under the configured key), puts the
  computed next State into the state cell, and calls \<open>onChange?.(next, { source })\<close> with
  that State and the source of the path, which is a call of the observer when one is
  configured and nothing otherwise. The next State is the given one after \<open>setState(s)\<close>
  and \<open>g(prev)\<close> after \<open>setState(g)\<close>; after \<open>set(k, v)\<close> it is the previous State with
  \<open>v\<close> under \<open>k\<close> (without \<open>k\<close> when \<open>v\<close> is \<open>undefined\<close>, and unchanged when \<open>k\<close> is the
  name \<open>__proto__\<close> and the State has no property of that name); after \<open>patch(partial)\<close> it
  is the previous State overridden by the properties of \<open>partial\<close>; after \<open>remove(...ks)\<close>
  it is the previous State without the properties named in \<open>ks\<close>.
\<close>

theorem write_paths_without_storage:
  assumes "\<not> fst (isLocalStorageAvailable (storage h))"
  shows "state (api_setState opts (Value s) h) = s
    \<and> state (api_setState opts (Updater g) h) = g (state h)
    \<and> map_of (state (api_set opts k v h)) =
        (if v = JUndefined then (map_of (state h))(k := None)
         else if k = ''__proto__'' \<and> map_of (state h) k = None then map_of (state h)
         else (map_of (state h))(k \<mapsto> v))
    \<and> map_of (state (api_patch opts partial h)) = map_of (state h) ++ map_of (rev partial)
    \<and> state (api_remove opts ks h) = filter (\<lambda>p. fst p \<notin> set ks) (state h)
    \<and> storage (api_setState opts u h) = snd (isLocalStorageAvailable (storage h))
    \<and> storage (api_set opts k v h) = snd (isLocalStorageAvailable (storage h))
    \<and> storage (api_patch opts partial h) = snd (isLocalStorageAvailable (storage h))
    \<and> storage (api_remove opts ks h) = snd (isLocalStorageAvailable (storage h))
    \<and> observer (api_setState opts u h) =
        notify opts (state (api_setState opts u h)) Set (observer h)
    \<and> observer (api_set opts k v h) = notify opts (state (api_set opts k v h)) Patch (observer h)
    \<and> observer (api_patch opts partial h) =
        notify opts (state (api_patch opts partial h)) Patch (observer h)
    \<and> observer (api_remove opts ks h) =
        notify opts (state (api_remove opts ks h)) Patch (observer h)
    \<and> (onChange opts = Some f \<longrightarrow> notify opts s' src obs = f s' src obs)
    \<and> (onChange opts = None \<longrightarrow> notify opts s' src obs = obs)
    \<and> items (snd (isLocalStorageAvailable (storage h))) (key opts) =
       (if key opts = testKey \<and> \<not> setItem_throws (storage h) testKey ''1''
        then Some ''1'' else items (storage h) (key opts))"
proof -
  have w: "writeFull opts (storage h) s' = snd (isLocalStorageAvailable (storage h))" for s'
    using assms by (rule writeFull_unavailable)
  have a: "state (api_setState opts (Value s) h) = s"
    and b: "state (api_setState opts (Updater g) h) = g (state h)"
    by (simp_all add: api_setState_def Let_def)
  have c: "map_of (state (api_set opts k v h)) =
        (if v = JUndefined then (map_of (state h))(k := None)
         else if k = ''__proto__'' \<and> map_of (state h) k = None then map_of (state h)
         else (map_of (state h))(k \<mapsto> v))"
    by (simp add: api_set_def Let_def map_of_obj_assign map_of_obj_delete)
  have d: "map_of (state (api_patch opts partial h)) = map_of (state h) ++ map_of (rev partial)"
    by (simp add: api_patch_def Let_def map_of_spread)
  have e: "state (api_remove opts ks h) = filter (\<lambda>p. fst p \<notin> set ks) (state h)"
    by (simp add: api_remove_def Let_def fold_obj_delete)
  have st: "storage (api_setState opts u h) = snd (isLocalStorageAvailable (storage h))"
    "storage (api_set opts k v h) = snd (isLocalStorageAvailable (storage h))"
    "storage (api_patch opts partial h) = snd (isLocalStorageAvailable (storage h))"
    "storage (api_remove opts ks h) = snd (isLocalStorageAvailable (storage h))"
    by (simp_all add: api_setState_def api_set_def api_patch_def api_remove_def Let_def w)
  have ob: "observer (api_setState opts u h) =
        notify opts (state (api_setState opts u h)) Set (observer h)"
    "observer (api_set opts k v h) = notify opts (state (api_set opts k v h)) Patch (observer h)"
    "observer (api_patch opts partial h) =
        notify opts (state (api_patch opts partial h)) Patch (observer h)"
    "observer (api_remove opts ks h) =
        notify opts (state (api_remove opts ks h)) Patch (observer h)"
    by (simp_all add: api_setState_def api_set_def api_patch_def api_remove_def Let_def)
  have n: "onChange opts = Some f \<longrightarrow> notify opts s' src obs = f s' src obs"
    "onChange opts = None \<longrightarrow> notify opts s' src obs = obs"
    by (simp_all add: notify_def)
  have i: "items (snd (isLocalStorageAvailable (storage h))) (key opts) =
       (if key opts = testKey \<and> \<not> setItem_throws (storage h) testKey ''1''
        then Some ''1'' else items (storage h) (key opts))"
    using assms by (simp add: probe_eq split: if_splits)
  from a b c d e st ob n i show ?thesis
    by blast
qed

text \<open>The example of the specification, in a window without storage: \<open>set("theme", "dark")\<close>
  on the State \<open>{ theme: "light" }\<close>, once with an observer that records its calls and once
  with none, and a \<open>patch\<close> and a \<open>remove\<close> in the same window.\<close>

theorem write_paths_without_storage_witness:
  "\<not> fst (isLocalStorageAvailable
        (storage \<lparr>state = [(''theme'', JStr ''light'')], storage = no_storage, observer = []\<rparr>))
   \<and> onChange prefs_options = Some record_call
   \<and> onChange (prefs_options\<lparr>onChange := None\<rparr>) = None
   \<and> map_of (state (api_set prefs_options ''theme'' (JStr ''dark'')
        \<lparr>state = [(''theme'', JStr ''light'')], storage = no_storage, observer = []\<rparr>)) ''theme''
      = Some (JStr ''dark'')
   \<and> observer (api_set prefs_options ''theme'' (JStr ''dark'')
        \<lparr>state = [(''theme'', JStr ''light'')], storage = no_storage, observer = []\<rparr>)
      = [(state (api_set prefs_options ''theme'' (JStr ''dark'')
            \<lparr>state = [(''theme'', JStr ''light'')], storage = no_storage, observer = []\<rparr>), Patch)]
   \<and> observer (api_set (prefs_options\<lparr>onChange := None\<rparr>) ''theme'' (JStr ''dark'')
        \<lparr>state = [(''theme'', JStr ''light'')], storage = no_storage, observer = []\<rparr>)
      = []
   \<and> items (storage (api_set prefs_options ''theme'' (JStr ''dark'')
        \<lparr>state = [(''theme'', JStr ''light'')], storage = no_storage, observer = []\<rparr>)) ''prefs''
      = None
   \<and> map_of (state (api_patch prefs_options [(''page'', JNum 2)]
        \<lparr>state = [(''theme'', JStr ''light'')], storage = no_storage, observer = []\<rparr>))
      = [''theme'' \<mapsto> JStr ''light'', ''page'' \<mapsto> JNum 2]
   \<and> state (api_remove prefs_options [''theme'']
        \<lparr>state = [(''theme'', JStr ''light'')], storage = no_storage, observer = []\<rparr>)
      = []"
proof -
  let ?h = "\<lparr>state = [(''theme'', JStr ''light'')], storage = no_storage, observer = ([] :: trace)\<rparr>"
  have a: "\<not> fst (isLocalStorageAvailable (storage ?h))"
    by (simp add: no_storage_unavailable)
  have b: "onChange prefs_options = Some record_call"
    by (simp add: prefs_options_def)
  have c: "onChange (prefs_options\<lparr>onChange := None\<rparr>) = None"
    by simp
  note t = write_paths_without_storage [OF a, where opts = prefs_options and f = record_call
      and k = "''theme''" and v = "JStr ''dark''" and partial = "[(''page'', JNum 2)]"
      and ks = "[''theme'']"]
  note u = write_paths_without_storage [OF a, where opts = "prefs_options\<lparr>onChange := None\<rparr>"
      and k = "''theme''" and v = "JStr ''dark''"]
  from t b have n: "notify prefs_options s' src obs = record_call s' src obs" for s' src obs
    by blast
  from u c have m: "notify (prefs_options\<lparr>onChange := None\<rparr>) s' src obs = obs" for s' src obs
    by blast
  from t have t1: "map_of (state (api_set prefs_options ''theme'' (JStr ''dark'') ?h)) =
        (map_of (state ?h))(''theme'' \<mapsto> JStr ''dark'')"
    by simp
  from t have t2: "observer (api_set prefs_options ''theme'' (JStr ''dark'') ?h) =
        notify prefs_options (state (api_set prefs_options ''theme'' (JStr ''dark'') ?h)) Patch
          (observer ?h)"
    by blast
  from u have u2: "observer (api_set (prefs_options\<lparr>onChange := None\<rparr>) ''theme'' (JStr ''dark'') ?h) =
        notify (prefs_options\<lparr>onChange := None\<rparr>)
          (state (api_set (prefs_options\<lparr>onChange := None\<rparr>) ''theme'' (JStr ''dark'') ?h)) Patch
          (observer ?h)"
    by blast
  from t have t3: "storage (api_set prefs_options ''theme'' (JStr ''dark'') ?h) =
        snd (isLocalStorageAvailable (storage ?h))"
    by blast
  from t have t4: "map_of (state (api_patch prefs_options [(''page'', JNum 2)] ?h)) =
        map_of (state ?h) ++ map_of (rev [(''page'', JNum 2)])"
    by blast
  from t have t5: "state (api_remove prefs_options [''theme''] ?h) =
        filter (\<lambda>p. fst p \<notin> set [''theme'']) (state ?h)"
    by blast
  have t6: "items (snd (isLocalStorageAvailable no_storage)) ''prefs'' = None"
    by (simp add: probe_eq no_storage_def)
  have t7: "map_of [(''theme'', JStr ''light'')] ++ [''page'' \<mapsto> JNum 2]
      = [''theme'' \<mapsto> JStr ''light'', ''page'' \<mapsto> JNum 2]"
    by (auto simp: fun_eq_iff map_add_def)
  show ?thesis
    using a b c by (simp add: t1 t2 u2 t3 t4 t5 t6 t7 n m record_call_def)
qed

section \<open>Clearing\<close>

text \<open>
  C5 (as amended). \<open>clear()\<close> always resets the State to the empty object and leaves the
  observer alone, whatever observer is configured. It removes the record under the
  configured key when the storage passes the availability probe and \<open>removeItem\<close> does not
  throw on the key; the record is then absent for a raw read and for the guarded read.
  When the probe fails, \<open>removeLocalStorage\<close> returns before it removes anything and the
  record stays as it is, under every key but the test key of the probe, which the probe
  itself may have written.
\<close>

theorem clear_resets_state:
  "state (api_clear opts h) = []
   \<and> observer (api_clear opts h) = observer h
   \<and> (fst (isLocalStorageAvailable (storage h)) \<and> \<not> removeItem_throws (storage h) (key opts)
        \<longrightarrow> items (storage (api_clear opts h)) (key opts) = None
          \<and> fst (readLocalStorage (storage (api_clear opts h)) (key opts) Inr) = None)
   \<and> (\<not> fst (isLocalStorageAvailable (storage h)) \<and> key opts \<noteq> testKey
        \<longrightarrow> items (storage (api_clear opts h)) (key opts) = items (storage h) (key opts))"
  by (simp add: api_clear_def removeLocalStorage_def readLocalStorage_raw probe_eq removeItem_def)

theorem clear_resets_state_witness:
  "fst (isLocalStorageAvailable (working_storage [''prefs'' \<mapsto> theme_dark_text]))
   \<and> \<not> removeItem_throws (working_storage [''prefs'' \<mapsto> theme_dark_text]) ''prefs''
   \<and> state (api_clear prefs_options
        \<lparr>state = [(''theme'', JStr ''dark'')],
         storage = working_storage [''prefs'' \<mapsto> theme_dark_text],
         observer = []\<rparr>) = []
   \<and> observer (api_clear prefs_options
        \<lparr>state = [(''theme'', JStr ''dark'')],
         storage = working_storage [''prefs'' \<mapsto> theme_dark_text],
         observer = []\<rparr>) = []
   \<and> items (storage (api_clear prefs_options
        \<lparr>state = [(''theme'', JStr ''dark'')],
         storage = working_storage [''prefs'' \<mapsto> theme_dark_text],
         observer = []\<rparr>)) ''prefs'' = None
   \<and> \<not> fst (isLocalStorageAvailable (full_storage [''prefs'' \<mapsto> theme_dark_text]))
   \<and> key prefs_options \<noteq> testKey
   \<and> items (storage (api_clear prefs_options
        \<lparr>state = [(''theme'', JStr ''dark'')],
         storage = full_storage [''prefs'' \<mapsto> theme_dark_text],
         observer = []\<rparr>)) ''prefs''
      = items (full_storage [''prefs'' \<mapsto> theme_dark_text]) ''prefs''"
proof -
  have a: "fst (isLocalStorageAvailable (working_storage [''prefs'' \<mapsto> theme_dark_text]))"
    by (rule working_storage_available)
  have b: "\<not> removeItem_throws (working_storage [''prefs'' \<mapsto> theme_dark_text]) ''prefs''"
    by (simp add: working_storage_def)
  have c: "\<not> fst (isLocalStorageAvailable (full_storage [''prefs'' \<mapsto> theme_dark_text]))"
    by (rule full_storage_unavailable)
  have d: "key prefs_options \<noteq> testKey"
    by (simp add: prefs_options_def testKey_def)
  have e: "key prefs_options = ''prefs''"
    by (simp add: prefs_options_def)
  show ?thesis
    using a b c d
      clear_resets_state [of prefs_options
        "\<lparr>state = [(''theme'', JStr ''dark'')],
          storage = working_storage [''prefs'' \<mapsto> theme_dark_text],
          observer = []\<rparr>"]
      clear_resets_state [of prefs_options
        "\<lparr>state = [(''theme'', JStr ''dark'')],
          storage = full_storage [''prefs'' \<mapsto> theme_dark_text],
          observer = []\<rparr>"]
    by (simp add: e)
qed

text \<open>A storage whose quota is used up: every write throws, so the probe fails and
  \<open>removeLocalStorage\<close> returns before it removes anything. The record is still there for a
  raw read after \<open>clear()\<close>.\<close>

theorem clear_counterexample:
  "items (storage (api_clear prefs_options
        \<lparr>state = [(''theme'', JStr ''dark'')],
         storage = full_storage [''prefs'' \<mapsto> theme_dark_text],
         observer = []\<rparr>)) ''prefs'' = Some theme_dark_text
   \<and> getItem (storage (api_clear prefs_options
        \<lparr>state = [(''theme'', JStr ''dark'')],
         storage = full_storage [''prefs'' \<mapsto> theme_dark_text],
         observer = []\<rparr>)) ''prefs'' = Inr (Some theme_dark_text)"
  by (simp add: api_clear_def removeLocalStorage_def probe_eq full_storage_def getItem_def
      prefs_options_def)

section \<open>Changes made in another context\<close>

lemma theme_dark_text_nonempty: "theme_dark_text \<noteq> []"
  by (simp add: theme_dark_text_def)

lemma readAll_theme_dark:
  assumes "key opts = ''prefs''" and "version opts = None"
  shows "fst (readAll opts (working_storage [''prefs'' \<mapsto> theme_dark_text]))
    = JObj [(''theme'', JStr ''dark'')]"
proof -
  have "items (working_storage [''prefs'' \<mapsto> theme_dark_text]) ''prefs'' = Some theme_dark_text"
    and "\<not> getItem_throws (working_storage [''prefs'' \<mapsto> theme_dark_text]) ''prefs''"
    and "''prefs'' \<noteq> testKey"
    by (simp_all add: working_storage_def testKey_def)
  then show ?thesis
    using assms
    by (simp add: readAll_value working_storage_available parse_theme_dark theme_dark_text_nonempty)
qed

lemma mergeWithDefaults_onto_empty:
  "mergeWithDefaults (JObj [(k, v)]) [] = [(k, v)]"
  by (simp add: mergeWithDefaults_def own_fields_def spread_def obj_set_empty)


text \<open>
  C6 (as amended). With \<open>syncAcrossTabs\<close> set (the default), a \<open>storage\<close> event whose key
  is the configured key re-runs \<open>readInitial\<close> on the storage as it is now; when that
  returns a State, the state cell is replaced by it and \<open>onChange?.(next, { source:
  "external" })\<close> is evaluated once with it: the observer, when there is one, is called with
  that State and the source \<open>external\<close>. An event for any other key, or for no key, changes
  nothing and calls nobody; neither does any event when \<open>syncAcrossTabs\<close> is off, because
  no listener is registered then.
\<close>

theorem storage_event_sync:
  "(syncAcrossTabs opts \<and> readInitial opts D (storage h) = (Inr s, ls')
      \<longrightarrow> storage_event opts D (Some (key opts)) h =
            (None, \<lparr>state = s, storage = ls', observer = notify opts s External (observer h)\<rparr>))
   \<and> (onChange opts = Some f \<longrightarrow> notify opts s External obs = f s External obs)
   \<and> (onChange opts = None \<longrightarrow> notify opts s External obs = obs)
   \<and> (ek \<noteq> Some (key opts) \<longrightarrow> storage_event opts D ek h = (None, h))
   \<and> (\<not> syncAcrossTabs opts \<longrightarrow> storage_event opts D ek h = (None, h))"
  by (simp add: storage_event_def handler_def notify_def)

text \<open>Another context has stored \<open>{ theme: "dark" }\<close> under the configured key: the event
  for that key replaces the State \<open>{}\<close>, with an observer that records its calls and with
  no observer; the event for another key and the event with \<open>syncAcrossTabs\<close> off change
  nothing.\<close>

theorem storage_event_sync_witness:
  "syncAcrossTabs prefs_options
   \<and> readInitial prefs_options []
        (storage \<lparr>state = [], storage = working_storage [''prefs'' \<mapsto> theme_dark_text], observer = []\<rparr>)
      = (Inr [(''theme'', JStr ''dark'')],
         snd (isLocalStorageAvailable (working_storage [''prefs'' \<mapsto> theme_dark_text])))
   \<and> onChange prefs_options = Some record_call
   \<and> storage_event prefs_options [] (Some (key prefs_options))
        \<lparr>state = [], storage = working_storage [''prefs'' \<mapsto> theme_dark_text], observer = []\<rparr>
      = (None, \<lparr>state = [(''theme'', JStr ''dark'')],
                storage = snd (isLocalStorageAvailable (working_storage [''prefs'' \<mapsto> theme_dark_text])),
                observer = [([(''theme'', JStr ''dark'')], External)]\<rparr>)
   \<and> syncAcrossTabs (prefs_options\<lparr>onChange := None\<rparr>)
   \<and> readInitial (prefs_options\<lparr>onChange := None\<rparr>) []
        (storage \<lparr>state = [], storage = working_storage [''prefs'' \<mapsto> theme_dark_text], observer = []\<rparr>)
      = (Inr [(''theme'', JStr ''dark'')],
         snd (isLocalStorageAvailable (working_storage [''prefs'' \<mapsto> theme_dark_text])))
   \<and> onChange (prefs_options\<lparr>onChange := None\<rparr>) = None
   \<and> storage_event (prefs_options\<lparr>onChange := None\<rparr>) []
        (Some (key (prefs_options\<lparr>onChange := None\<rparr>)))
        \<lparr>state = [], storage = working_storage [''prefs'' \<mapsto> theme_dark_text], observer = []\<rparr>
      = (None, \<lparr>state = [(''theme'', JStr ''dark'')],
                storage = snd (isLocalStorageAvailable (working_storage [''prefs'' \<mapsto> theme_dark_text])),
                observer = []\<rparr>)
   \<and> Some ''other'' \<noteq> Some (key prefs_options)
   \<and> storage_event prefs_options [] (Some ''other'')
        \<lparr>state = [], storage = working_storage [''prefs'' \<mapsto> theme_dark_text], observer = []\<rparr>
      = (None, \<lparr>state = [], storage = working_storage [''prefs'' \<mapsto> theme_dark_text], observer = []\<rparr>)
   \<and> \<not> syncAcrossTabs (prefs_options\<lparr>syncAcrossTabs := False\<rparr>)
   \<and> storage_event (prefs_options\<lparr>syncAcrossTabs := False\<rparr>) [] (Some ''prefs'')
        \<lparr>state = [], storage = working_storage [''prefs'' \<mapsto> theme_dark_text], observer = []\<rparr>
      = (None, \<lparr>state = [], storage = working_storage [''prefs'' \<mapsto> theme_dark_text], observer = []\<rparr>)"
proof -
  let ?ls = "working_storage [''prefs'' \<mapsto> theme_dark_text]"
  let ?h = "\<lparr>state = [], storage = ?ls, observer = ([] :: trace)\<rparr>"
  let ?quiet = "prefs_options\<lparr>onChange := None\<rparr>"
  have a: "syncAcrossTabs prefs_options" "syncAcrossTabs ?quiet"
    by (simp_all add: prefs_options_def)
  have "fst (readAll prefs_options ?ls) = JObj [(''theme'', JStr ''dark'')]"
    by (simp add: readAll_theme_dark prefs_options_def)
  then have "fst (readInitial prefs_options [] ?ls) = Inr [(''theme'', JStr ''dark'')]"
    by (simp add: readInitial_value mergeWithDefaults_onto_empty prefs_options_def)
  then have b: "readInitial prefs_options [] (storage ?h)
      = (Inr [(''theme'', JStr ''dark'')], snd (isLocalStorageAvailable ?ls))"
    using readInitial_storage [of prefs_options "[]" ?ls]
    by (simp add: prod_eq_iff)
  have "fst (readAll ?quiet ?ls) = JObj [(''theme'', JStr ''dark'')]"
    by (simp add: readAll_theme_dark prefs_options_def)
  then have "fst (readInitial ?quiet [] ?ls) = Inr [(''theme'', JStr ''dark'')]"
    by (simp add: readInitial_value mergeWithDefaults_onto_empty prefs_options_def)
  then have b': "readInitial ?quiet [] (storage ?h)
      = (Inr [(''theme'', JStr ''dark'')], snd (isLocalStorageAvailable ?ls))"
    using readInitial_storage [of ?quiet "[]" ?ls]
    by (simp add: prod_eq_iff)
  have c: "onChange prefs_options = Some record_call" "onChange ?quiet = None"
    by (simp_all add: prefs_options_def)
  have d: "Some ''other'' \<noteq> Some (key prefs_options)"
    by (simp add: prefs_options_def)
  have e: "\<not> syncAcrossTabs (prefs_options\<lparr>syncAcrossTabs := False\<rparr>)"
    by simp
  note t = storage_event_sync [where opts = prefs_options and D = "[]" and h = ?h
        and s = "[(''theme'', JStr ''dark'')]" and ls' = "snd (isLocalStorageAvailable ?ls)"
        and f = record_call and obs = "[]"]
  note q = storage_event_sync [where opts = ?quiet and D = "[]" and h = ?h
        and s = "[(''theme'', JStr ''dark'')]" and ls' = "snd (isLocalStorageAvailable ?ls)"
        and obs = "[]"]
  from t c have n: "notify prefs_options [(''theme'', JStr ''dark'')] External []
      = record_call [(''theme'', JStr ''dark'')] External []"
    by blast
  from q c have m: "notify ?quiet [(''theme'', JStr ''dark'')] External ([] :: trace) = []"
    by blast
  from t a b have "storage_event prefs_options [] (Some (key prefs_options)) ?h
      = (None, \<lparr>state = [(''theme'', JStr ''dark'')], storage = snd (isLocalStorageAvailable ?ls),
                observer = notify prefs_options [(''theme'', JStr ''dark'')] External (observer ?h)\<rparr>)"
    by blast
  then have r1: "storage_event prefs_options [] (Some (key prefs_options)) ?h
      = (None, \<lparr>state = [(''theme'', JStr ''dark'')], storage = snd (isLocalStorageAvailable ?ls),
                observer = [([(''theme'', JStr ''dark'')], External)]\<rparr>)"
    by (simp add: n record_call_def)
  from q a b' have "storage_event ?quiet [] (Some (key ?quiet)) ?h
      = (None, \<lparr>state = [(''theme'', JStr ''dark'')], storage = snd (isLocalStorageAvailable ?ls),
                observer = notify ?quiet [(''theme'', JStr ''dark'')] External (observer ?h)\<rparr>)"
    by blast
  then have r2: "storage_event ?quiet [] (Some (key ?quiet)) ?h
      = (None, \<lparr>state = [(''theme'', JStr ''dark'')], storage = snd (isLocalStorageAvailable ?ls),
                observer = []\<rparr>)"
    by (simp add: m)
  have r3: "storage_event prefs_options [] (Some ''other'') ?h = (None, ?h)"
    using d storage_event_sync [where opts = prefs_options and D = "[]" and h = ?h
        and ek = "Some ''other''"]
    by blast
  have r4: "storage_event (prefs_options\<lparr>syncAcrossTabs := False\<rparr>) [] (Some ''prefs'') ?h
      = (None, ?h)"
    using e storage_event_sync [where opts = "prefs_options\<lparr>syncAcrossTabs := False\<rparr>"
        and D = "[]" and h = ?h and ek = "Some ''prefs''"]
    by blast
  show ?thesis
    using a b b' c d e r1 r2 r3 r4 by simp
qed

text \<open>With \<open>syncAcrossTabs\<close> off, another context stores \<open>{ theme: "dark" }\<close> under the
  configured key and the event arrives: the pipeline would give \<open>{ theme: "dark" }\<close>, yet
  the State stays \<open>{}\<close> and the observer is not called.\<close>

theorem storage_event_counterexample:
  "fst (readInitial (prefs_options\<lparr>syncAcrossTabs := False\<rparr>) []
        (working_storage [''prefs'' \<mapsto> theme_dark_text])) = Inr [(''theme'', JStr ''dark'')]
   \<and> state (snd (storage_event (prefs_options\<lparr>syncAcrossTabs := False\<rparr>) []
        (Some (key (prefs_options\<lparr>syncAcrossTabs := False\<rparr>)))
        \<lparr>state = [], storage = working_storage [''prefs'' \<mapsto> theme_dark_text], observer = []\<rparr>)) = []
   \<and> observer (snd (storage_event (prefs_options\<lparr>syncAcrossTabs := False\<rparr>) []
        (Some (key (prefs_options\<lparr>syncAcrossTabs := False\<rparr>)))
        \<lparr>state = [], storage = working_storage [''prefs'' \<mapsto> theme_dark_text], observer = []\<rparr>)) = []"
proof -
  let ?ls = "working_storage [''prefs'' \<mapsto> theme_dark_text]"
  have "fst (readAll (prefs_options\<lparr>syncAcrossTabs := False\<rparr>) ?ls) = JObj [(''theme'', JStr ''dark'')]"
    by (simp add: readAll_theme_dark prefs_options_def)
  then have "fst (readInitial (prefs_options\<lparr>syncAcrossTabs := False\<rparr>) [] ?ls)
      = Inr [(''theme'', JStr ''dark'')]"
    by (simp add: readInitial_value mergeWithDefaults_onto_empty prefs_options_def)
  then show ?thesis
    by (simp add: storage_event_def)
qed

section \<open>The codecs option\<close>

text \<open>The option \<open>codecs\<close> is not among the options that the hook takes out of its
  argument (lines 19 to 26): nothing that the hook does depends on it.\<close>

lemma codecs_irrelevant:
  "readInitial (opts\<lparr>codecs := c\<rparr>) D ls = readInitial opts D ls"
  "writeFull (opts\<lparr>codecs := c\<rparr>) ls s = writeFull opts ls s"
  "api_setState (opts\<lparr>codecs := c\<rparr>) u h = api_setState opts u h"
  "api_set (opts\<lparr>codecs := c\<rparr>) k v h = api_set opts k v h"
  "api_patch (opts\<lparr>codecs := c\<rparr>) partial h = api_patch opts partial h"
  "api_remove (opts\<lparr>codecs := c\<rparr>) ks h = api_remove opts ks h"
  by (simp_all add: readInitial_def readAll_def writeFull_def notify_def api_setState_def
      api_set_def api_patch_def api_remove_def
      cong: prod.case_cong option.case_cong sum.case_cong bool.case_cong if_cong)

text \<open>
  C7. The options carry a codec for the field \<open>theme\<close> that formats \<open>"dark"\<close> as
  \<open>#dark\<close>. After \<open>set("theme", "dark")\<close> the record under the key is the default JSON
  text of the whole State, in which the field is written by \<open>JSON.stringify\<close> and not by
  the codec; reading the record back gives the State without the codec's \<open>parse\<close>.
\<close>

theorem codecs_not_applied:
  "format hash_codec (JStr ''dark'') = ''#dark''
   \<and> items (storage (api_set (prefs_options\<lparr>codecs := Some [''theme'' \<mapsto> hash_codec]\<rparr>)
        ''theme'' (JStr ''dark'')
        \<lparr>state = [], storage = working_storage Map.empty, observer = []\<rparr>)) ''prefs''
      = Some theme_dark_text
   \<and> fst (readInitial (prefs_options\<lparr>codecs := Some [''theme'' \<mapsto> hash_codec]\<rparr>) []
        (working_storage [''prefs'' \<mapsto> theme_dark_text]))
      = Inr [(''theme'', JStr ''dark'')]"
proof -
  let ?ls = "working_storage [''prefs'' \<mapsto> theme_dark_text]"
  let ?opts = "prefs_options\<lparr>codecs := Some [''theme'' \<mapsto> hash_codec]\<rparr>"
  have a: "format hash_codec (JStr ''dark'') = ''#dark''"
    by (simp add: hash_codec_def)
  have "writeFull ?opts (working_storage Map.empty) [(''theme'', JStr ''dark'')]
      = (working_storage Map.empty)\<lparr>items := [''prefs'' \<mapsto> theme_dark_text]\<rparr>"
    by (simp add: writeFull_def writeLocalStorage_def probe_eq serialize_theme_dark setItem_def)
      (simp add: working_storage_def prefs_options_def)
  then have b: "items (storage (api_set ?opts ''theme'' (JStr ''dark'')
        \<lparr>state = [], storage = working_storage Map.empty, observer = []\<rparr>)) ''prefs''
      = Some theme_dark_text"
    by (simp add: api_set_def obj_assign_def obj_set_empty Let_def)
  have "fst (readAll ?opts ?ls) = JObj [(''theme'', JStr ''dark'')]"
    by (simp add: readAll_theme_dark prefs_options_def)
  then have c: "fst (readInitial ?opts [] ?ls) = Inr [(''theme'', JStr ''dark'')]"
    by (simp add: readInitial_value mergeWithDefaults_onto_empty prefs_options_def)
  from a b c show ?thesis
    by simp
qed

section \<open>Removing fields\<close>

text \<open>
  C8. \<open>remove(k1, k2, ...)\<close> removes the named fields and nothing else: the next State is
  the previous one without the properties of those names, every other property keeps its
  value (and its place). This holds for any number of keys, two in particular.
\<close>

theorem remove_exact:
  "state (api_remove opts ks h) = filter (\<lambda>p. fst p \<notin> set ks) (state h)
   \<and> map_of (state (api_remove opts ks h)) = (\<lambda>k. if k \<in> set ks then None else map_of (state h) k)"
proof -
  have "state (api_remove opts ks h) = fold obj_delete ks (state h)"
    by (simp add: api_remove_def Let_def)
  then show ?thesis
    by (simp only: map_of_fold_obj_delete) (simp add: fold_obj_delete)
qed

lemma remove_example:
  "state (api_remove prefs_options [''theme'', ''page'']
     \<lparr>state = [(''theme'', JStr ''dark''), (''page'', JNum 2), (''sort'', JStr ''asc'')],
      storage = working_storage Map.empty, observer = []\<rparr>)
   = [(''sort'', JStr ''asc'')]"
  by (simp add: api_remove_def Let_def obj_delete_def)

section \<open>The default codec on JSON values\<close>

subsection \<open>Numbers\<close>

lemma is_digit_char_of: "(d::nat) < 10 \<Longrightarrow> is_digit (char_of (48 + d))"
  by (simp add: is_digit_def)

lemma show_nat_nonempty: "show_nat n \<noteq> []"
  by (subst show_nat.simps) simp

lemma show_nat_digits: "list_all is_digit (show_nat n)"
proof (induction n rule: show_nat.induct)
  case (1 n)
  show ?case
  proof (cases "n < 10")
    case True
    then show ?thesis
      by (subst show_nat.simps) (simp add: is_digit_char_of)
  next
    case False
    then have "list_all is_digit (show_nat (n div 10))"
      using "1" by simp
    moreover have "is_digit (char_of (48 + n mod 10))"
      by (simp add: is_digit_char_of)
    ultimately show ?thesis
      using False by (subst show_nat.simps) simp
  qed
qed

lemma takeWhile_append_stop:
  assumes "rest = [] \<or> \<not> is_digit (hd rest)"
  shows "takeWhile is_digit (xs @ rest) = takeWhile is_digit xs"
    and "dropWhile is_digit (xs @ rest) = dropWhile is_digit xs @ rest"
  using assms by (induction xs) (cases rest; auto)+

lemma nat_of_digits_snoc:
  "nat_of_digits (ds @ [c]) = 10 * nat_of_digits ds + (of_char c - 48)"
  by (simp add: nat_of_digits_def)

lemma nat_of_digits_show_nat: "nat_of_digits (show_nat n) = n"
proof (induction n rule: show_nat.induct)
  case (1 n)
  show ?case
  proof (cases "n < 10")
    case True
    then show ?thesis
      by (subst show_nat.simps) (simp add: nat_of_digits_def)
  next
    case False
    then have "nat_of_digits (show_nat (n div 10)) = n div 10"
      using "1" by simp
    moreover have "of_char (char_of (48 + n mod 10) :: char) - 48 = n mod 10"
      by simp
    ultimately show ?thesis
      using False by (subst show_nat.simps) (simp add: nat_of_digits_snoc)
  qed
qed

lemma show_nat_hd_zero: "hd (show_nat n) = CHR ''0'' \<Longrightarrow> n = 0"
proof (induction n rule: show_nat.induct)
  case (1 n)
  show ?case
  proof (cases "n < 10")
    case True
    with "1.prems" have "char_of (48 + n) = CHR ''0''"
      by (subst (asm) show_nat.simps) simp
    then have "of_char (char_of (48 + n) :: char) = (of_char (CHR ''0'') :: nat)"
      by simp
    with True show ?thesis by simp
  next
    case False
    with "1.prems" have "hd (show_nat (n div 10)) = CHR ''0''"
      by (subst (asm) show_nat.simps) (simp add: show_nat_nonempty)
    with "1.IH" False have "n div 10 = 0" by simp
    with False show ?thesis by simp
  qed
qed

lemma char_of_48: "char_of (48::nat) = CHR ''0''"
  by code_simp

lemma show_nat_0: "show_nat 0 = ''0''"
  by (subst show_nat.simps) (simp add: char_of_48)

lemma takeWhile_digits:
  assumes "list_all is_digit ds" and "rest = [] \<or> \<not> is_digit (hd rest)"
  shows "takeWhile is_digit (ds @ rest) = ds" and "dropWhile is_digit (ds @ rest) = rest"
  using assms by (induction ds) (cases rest; auto)+

lemma delimited_not_digit: "delimited rest \<Longrightarrow> rest = [] \<or> \<not> is_digit (hd rest)"
  by (auto simp: delimited_def is_digit_def)

lemma delimited_frac: "delimited rest \<Longrightarrow> parse_frac rest = Some ([], rest)"
  by (auto simp: delimited_def parse_frac_def split: list.splits)

lemma delimited_exp: "delimited rest \<Longrightarrow> parse_exp rest = Some ([], rest)"
  by (auto simp: delimited_def parse_exp_def split: list.splits)

lemma parse_number_nat:
  assumes "delimited rest" and "n \<le> 9007199254740991"
  shows "parse_number (show_nat n @ rest) = Some (JNum (int n), rest)"
proof -
  obtain d ds where ds: "show_nat n = d # ds"
    using show_nat_nonempty [of n] by (cases "show_nat n") auto
  have dig: "list_all is_digit (d # ds)"
    using show_nat_digits [of n] ds by simp
  then have d: "is_digit d" and nm: "d \<noteq> CHR ''-''"
    by (auto simp: is_digit_def)
  note nd = delimited_not_digit [OF assms(1)]
  show ?thesis
  proof (cases "d = CHR ''0''")
    case True
    then have "n = 0" using show_nat_hd_zero [of n] ds by simp
    then have "ds = []" using ds show_nat_0 by simp
    with True ds d nm assms show ?thesis
      using nat_of_digits_show_nat [of n]
      by (simp add: parse_number_def number_value_def delimited_frac delimited_exp)
  next
    case False
    have tw: "takeWhile is_digit (d # ds @ rest) = d # ds"
      using takeWhile_digits(1) [OF dig nd] by simp
    with False ds d nm assms show ?thesis
      using nat_of_digits_show_nat [of n]
      by (simp add: parse_number_def number_value_def Let_def delimited_frac delimited_exp)
  qed
qed

lemma parse_number_int:
  assumes "delimited rest" and "\<bar>i\<bar> \<le> 9007199254740991"
  shows "parse_number (show_int i @ rest) = Some (JNum i, rest)"
proof (cases "i < 0")
  case False
  then show ?thesis
    using parse_number_nat [OF assms(1), of "nat i"] assms(2) by (simp add: show_int_def)
next
  case True
  obtain d ds where ds: "show_nat (nat (- i)) = d # ds"
    using show_nat_nonempty [of "nat (- i)"] by (cases "show_nat (nat (- i))") auto
  have dig: "list_all is_digit (d # ds)"
    using show_nat_digits [of "nat (- i)"] ds by simp
  then have d: "is_digit d" and nm: "d \<noteq> CHR ''-''"
    by (auto simp: is_digit_def)
  note nd = delimited_not_digit [OF assms(1)]
  have pos: "nat (- i) \<noteq> 0" using True by simp
  then have nz: "d \<noteq> CHR ''0''"
    using show_nat_hd_zero [of "nat (- i)"] ds by auto
  have tw: "takeWhile is_digit (d # ds @ rest) = d # ds"
    using takeWhile_digits(1) [OF dig nd] by simp
  have v: "int (nat_of_digits (d # ds)) = - i"
    using nat_of_digits_show_nat [of "nat (- i)"] ds True by simp
  with assms(2) True have "nat_of_digits (d # ds) \<le> 9007199254740991"
    by linarith
  with v True ds d nm nz tw assms(1) show ?thesis
    by (simp add: show_int_def parse_number_def number_value_def Let_def delimited_frac delimited_exp)
qed

text \<open>A literal is read in the same way when a delimiter follows it.\<close>

lemma parse_frac_append:
  assumes "delimited rest" and "parse_frac s = Some (fr, r)"
  shows "parse_frac (s @ rest) = Some (fr, r @ rest)"
proof (cases s)
  case Nil
  with assms show ?thesis
    by (simp add: delimited_frac) (simp add: parse_frac_def)
next
  case (Cons c s')
  note nd = delimited_not_digit [OF assms(1)]
  from assms(2) Cons show ?thesis
    by (auto simp: parse_frac_def takeWhile_append_stop [OF nd] split: if_splits)
qed

lemma parse_exp_append:
  assumes "delimited rest" and "parse_exp s = Some (ex, r)"
  shows "parse_exp (s @ rest) = Some (ex, r @ rest)"
proof (cases s)
  case Nil
  with assms show ?thesis
    by (simp add: delimited_exp) (simp add: parse_exp_def)
next
  case (Cons c s')
  note nd = delimited_not_digit [OF assms(1)]
  show ?thesis
  proof (cases "c = CHR ''e'' \<or> c = CHR ''E''")
    case False
    with assms(2) Cons show ?thesis
      by (auto simp: parse_exp_def)
  next
    case True
    show ?thesis
    proof (cases s')
      case Nil
      with assms(2) Cons True show ?thesis
        by (auto simp: parse_exp_def)
    next
      case (Cons x s'')
      with assms(2) \<open>s = c # s'\<close> True show ?thesis
        by (auto simp: parse_exp_def Let_def takeWhile_append_stop [OF nd] split: if_splits)
    qed
  qed
qed

lemma parse_number_append:
  assumes "delimited rest" and "parse_number s = Some (v, r)"
  shows "parse_number (s @ rest) = Some (v, r @ rest)"
proof -
  note nd = delimited_not_digit [OF assms(1)]
  define N where "N = (\<lambda>u. case u of [] \<Rightarrow> False | c # r \<Rightarrow> c = CHR ''-'')"
  define S where "S = (\<lambda>u. if N u then tl u else u)"
  define I where "I = (\<lambda>u. if hd (S u) = CHR ''0'' then [hd (S u)] else takeWhile is_digit (S u))"
  define T where "T = (\<lambda>u. drop (length (I u)) (S u))"
  have unf: "parse_number u =
      (if S u = [] \<or> \<not> is_digit (hd (S u)) then None
       else case parse_frac (T u) of
              None \<Rightarrow> None
            | Some (fr, s3) \<Rightarrow>
               (case parse_exp s3 of
                  None \<Rightarrow> None
                | Some (ex, s4) \<Rightarrow> Some (number_value (N u) (I u) fr ex, s4)))" for u
    unfolding parse_number_def Let_def N_def S_def I_def T_def
    by (simp split: list.splits cong: option.case_cong prod.case_cong)
  from assms(2) have s1: "S s \<noteq> []" and d: "is_digit (hd (S s))"
    by (auto simp: unf split: if_splits)
  from assms(2) s1 d obtain fr s3 ex where fr: "parse_frac (T s) = Some (fr, s3)"
    and ex: "parse_exp s3 = Some (ex, r)" and v: "v = number_value (N s) (I s) fr ex"
    by (auto simp: unf split: option.splits)
  from s1 have s: "s \<noteq> []"
    by (auto simp: S_def split: if_splits)
  then have n': "N (s @ rest) = N s"
    by (cases s) (simp_all add: N_def)
  with s have s': "S (s @ rest) = S s @ rest"
    by (simp add: S_def)
  from s1 have h': "hd (S s @ rest) = hd (S s)"
    by simp
  have i': "I (s @ rest) = I s"
    by (simp add: I_def s' h' takeWhile_append_stop [OF nd])
  have "length (I s) \<le> length (S s)"
    using s1 by (cases "S s") (simp_all add: I_def length_takeWhile_le)
  then have t': "T (s @ rest) = T s @ rest"
    by (simp add: T_def s' i')
  have "parse_number (s @ rest) = Some (number_value (N s) (I s) fr ex, r @ rest)"
    using s1 d parse_frac_append [OF assms(1) fr] parse_exp_append [OF assms(1) ex]
    by (simp add: unf [of "s @ rest"] n' s' h' i' t')
  with v show ?thesis
    by simp
qed

lemma parse_number_start:
  assumes "parse_number s = Some (v, r)"
  shows "\<exists>c s'. s = c # s' \<and> (c = CHR ''-'' \<or> is_digit c)"
  using assms
  by (cases s) (auto simp: parse_number_def Let_def split: list.splits if_splits)

subsection \<open>Strings\<close>

lemma hex_val_hex_digit: "d < 16 \<Longrightarrow> hex_val (hex_digit d) = Some d"
  by (auto simp: hex_val_def hex_digit_def Let_def)

lemma hex_val_zero: "hex_val (CHR ''0'') = Some 0"
  by (simp add: hex_val_def)

lemma of_char_eq_numeral: "k < 256 \<Longrightarrow> (of_char c = (k::nat)) = (c = char_of k)"
  by (metis char_of_char of_char_of mod_less)

lemma control_chars:
  "char_of (34::nat) = CHR 0x22" "char_of (92::nat) = CHR 0x5C" "char_of (8::nat) = CHR 0x08"
  "char_of (12::nat) = CHR 0x0C" "char_of (10::nat) = CHR 0x0A" "char_of (13::nat) = CHR 0x0D"
  "char_of (9::nat) = CHR 0x09"
  by code_simp+


lemma esc_simple:
  "esc (CHR 0x22) = [CHR 0x5C, CHR 0x22]"
  "esc (CHR 0x5C) = [CHR 0x5C, CHR 0x5C]"
  "esc (CHR 0x08) = [CHR 0x5C, CHR ''b'']"
  "esc (CHR 0x0C) = [CHR 0x5C, CHR ''f'']"
  "esc (CHR 0x0A) = [CHR 0x5C, CHR ''n'']"
  "esc (CHR 0x0D) = [CHR 0x5C, CHR ''r'']"
  "esc (CHR 0x09) = [CHR 0x5C, CHR ''t'']"
  by (simp_all add: esc_def)

lemma esc_control:
  assumes "(of_char c :: nat) < 32" "c \<noteq> CHR 0x08" "c \<noteq> CHR 0x0C" "c \<noteq> CHR 0x0A"
      "c \<noteq> CHR 0x0D" "c \<noteq> CHR 0x09"
  shows "esc c = [CHR 0x5C, CHR ''u'', CHR ''0'', CHR ''0'', hex_digit (of_char c div 16), hex_digit (of_char c mod 16)]"
proof -
  have "(of_char c :: nat) \<noteq> 8" "(of_char c :: nat) \<noteq> 12" "(of_char c :: nat) \<noteq> 10"
    "(of_char c :: nat) \<noteq> 13" "(of_char c :: nat) \<noteq> 9"
    using assms(2-6) by (simp_all add: of_char_eq_numeral control_chars)
  with assms(1) show ?thesis
    by (simp add: esc_def Let_def)
qed

lemma esc_plain:
  assumes "\<not> (of_char c :: nat) < 32" "c \<noteq> CHR 0x22" "c \<noteq> CHR 0x5C"
  shows "esc c = [c]"
proof -
  have "(of_char c :: nat) \<noteq> 34" "(of_char c :: nat) \<noteq> 92"
    using assms(2-3) by (simp_all add: of_char_eq_numeral control_chars)
  with assms(1) show ?thesis
    by (simp add: esc_def Let_def)
qed


lemma unescape_simple:
  "unescape (CHR 0x22) = Some (CHR 0x22)"
  "unescape (CHR 0x5C) = Some (CHR 0x5C)"
  "unescape (CHR ''b'') = Some (CHR 0x08)"
  "unescape (CHR ''f'') = Some (CHR 0x0C)"
  "unescape (CHR ''n'') = Some (CHR 0x0A)"
  "unescape (CHR ''r'') = Some (CHR 0x0D)"
  "unescape (CHR ''t'') = Some (CHR 0x09)"
  by (simp_all add: unescape_def)

lemma parse_string_escaped:
  "e \<noteq> CHR ''u'' \<Longrightarrow> unescape e = Some ch \<Longrightarrow>
   parse_string (CHR 0x5C # e # s) = map_option (apfst ((#) ch)) (parse_string s)"
  by simp

lemma parse_string_hex:
  "hex_val a = Some x \<Longrightarrow> hex_val b = Some y \<Longrightarrow> hex_val c = Some z \<Longrightarrow> hex_val d = Some w \<Longrightarrow>
   parse_string (CHR 0x5C # CHR ''u'' # a # b # c # d # s) =
     map_option (apfst ((#) (char_of (((x * 16 + y) * 16 + z) * 16 + w)))) (parse_string s)"
  by simp

lemma parse_string_plain:
  "c \<noteq> CHR 0x22 \<Longrightarrow> c \<noteq> CHR 0x5C \<Longrightarrow> \<not> (of_char c :: nat) < 32 \<Longrightarrow>
   parse_string (c # s) = map_option (apfst ((#) c)) (parse_string s)"
  by simp

lemma parse_string_esc:
  "parse_string (esc c @ s) = map_option (apfst ((#) c)) (parse_string s)"
proof -
  consider "c = CHR 0x22" | "c = CHR 0x5C" | "c = CHR 0x08" | "c = CHR 0x0C" | "c = CHR 0x0A"
    | "c = CHR 0x0D" | "c = CHR 0x09"
    | "(of_char c :: nat) < 32" "c \<noteq> CHR 0x08" "c \<noteq> CHR 0x0C" "c \<noteq> CHR 0x0A"
      "c \<noteq> CHR 0x0D" "c \<noteq> CHR 0x09"
    | "\<not> (of_char c :: nat) < 32" "c \<noteq> CHR 0x22" "c \<noteq> CHR 0x5C"
    by blast
  then show ?thesis
  proof cases
    case 1
    then show ?thesis
      by (simp only: esc_simple append_Cons append_Nil) (rule parse_string_escaped, simp, rule unescape_simple)
  next
    case 2
    then show ?thesis
      by (simp only: esc_simple append_Cons append_Nil) (rule parse_string_escaped, simp, rule unescape_simple)
  next
    case 3
    then show ?thesis
      by (simp only: esc_simple append_Cons append_Nil) (rule parse_string_escaped, simp, rule unescape_simple)
  next
    case 4
    then show ?thesis
      by (simp only: esc_simple append_Cons append_Nil) (rule parse_string_escaped, simp, rule unescape_simple)
  next
    case 5
    then show ?thesis
      by (simp only: esc_simple append_Cons append_Nil) (rule parse_string_escaped, simp, rule unescape_simple)
  next
    case 6
    then show ?thesis
      by (simp only: esc_simple append_Cons append_Nil) (rule parse_string_escaped, simp, rule unescape_simple)
  next
    case 7
    then show ?thesis
      by (simp only: esc_simple append_Cons append_Nil) (rule parse_string_escaped, simp, rule unescape_simple)
  next
    case 8
    let ?n = "of_char c :: nat"
    have h1: "hex_val (hex_digit (?n div 16)) = Some (?n div 16)"
      using 8(1) by (intro hex_val_hex_digit) simp
    have h2: "hex_val (hex_digit (?n mod 16)) = Some (?n mod 16)"
      by (intro hex_val_hex_digit) simp
    have cb: "char_of (((0 * 16 + 0) * 16 + ?n div 16) * 16 + ?n mod 16) = c"
      by simp
    show ?thesis
      using parse_string_hex [OF hex_val_zero hex_val_zero h1 h2, of s]
      by (simp only: esc_control [OF 8] append_Cons append_Nil cb)
  next
    case 9
    then show ?thesis
      by (simp only: esc_plain [OF 9(1-3)] append_Cons append_Nil) (rule parse_string_plain)
  qed
qed

lemma parse_string_close: "parse_string (CHR 0x22 # rest) = Some ([], rest)"
  by simp

lemma parse_string_quote:
  "parse_string (concat (map esc s) @ CHR 0x22 # rest) = Some (s, rest)"
  by (induction s) (simp_all add: parse_string_esc parse_string_close del: parse_string.simps(2))

subsection \<open>Values, elements and members\<close>

lemma skip_ws_start: "\<not> is_ws c \<Longrightarrow> skip_ws (c # r) = c # r"
  by (simp add: skip_ws_def)

lemma parse_value_null: "parse_value (Suc n) (''null'' @ rest) = Some (JNull, rest)"
  by (simp add: skip_ws_def is_ws_def)

lemma parse_value_true: "parse_value (Suc n) (''true'' @ rest) = Some (JBool True, rest)"
  by (simp add: skip_ws_def is_ws_def)

lemma parse_value_false: "parse_value (Suc n) (''false'' @ rest) = Some (JBool False, rest)"
  by (simp add: skip_ws_def is_ws_def)

lemma show_int_start:
  "\<exists>c r. show_int i = c # r \<and> (c = CHR ''-'' \<or> is_digit c)"
proof (cases "i < 0")
  case True
  then show ?thesis by (simp add: show_int_def)
next
  case False
  obtain d ds where "show_nat (nat i) = d # ds"
    using show_nat_nonempty [of "nat i"] by (cases "show_nat (nat i)") auto
  moreover from this have "is_digit d"
    using show_nat_digits [of "nat i"] by simp
  ultimately show ?thesis
    using False by (simp add: show_int_def)
qed

lemma parse_value_number:
  assumes "c = CHR ''-'' \<or> is_digit c"
  shows "parse_value (Suc n) (c # r) = parse_number (c # r)"
proof -
  have "\<not> is_ws c" "c \<noteq> CHR ''n''" "c \<noteq> CHR ''t''" "c \<noteq> CHR ''f''" "c \<noteq> CHR 0x22"
    "c \<noteq> CHR ''[''" "c \<noteq> CHR ''{''"
    using assms by (auto simp: is_digit_def is_ws_def)
  then show ?thesis
    by (simp add: skip_ws_def)
qed

lemma parse_value_num:
  assumes "delimited rest" and "\<bar>i\<bar> \<le> 9007199254740991"
  shows "parse_value (Suc n) (show_int i @ rest) = Some (JNum i, rest)"
proof -
  obtain c r where cr: "show_int i = c # r" "c = CHR ''-'' \<or> is_digit c"
    using show_int_start by blast
  have "parse_value (Suc n) (c # r @ rest) = parse_number (c # r @ rest)"
    using cr(2) by (rule parse_value_number)
  then show ?thesis
    using parse_number_int [OF assms] cr(1) by simp
qed

lemma parse_value_double:
  assumes "delimited rest" and "parse_number t = Some (v, [])"
  shows "parse_value (Suc n) (t @ rest) = Some (v, rest)"
proof -
  obtain c r where cr: "t = c # r" "c = CHR ''-'' \<or> is_digit c"
    using parse_number_start [OF assms(2)] by blast
  have "parse_value (Suc n) (c # r @ rest) = parse_number (c # r @ rest)"
    using cr(2) by (rule parse_value_number)
  then show ?thesis
    using parse_number_append [OF assms] cr(1) by simp
qed

lemma parse_value_str: "parse_value (Suc n) (quote s @ rest) = Some (JStr s, rest)"
  using parse_string_quote [of s rest]
  by (simp add: quote_def skip_ws_def is_ws_def del: parse_string.simps)

lemma parse_value_arr_empty: "parse_value (Suc n) (''[]'' @ rest) = Some (JArr [], rest)"
  by (simp add: skip_ws_def is_ws_def)

lemma parse_value_obj_empty: "parse_value (Suc n) (''{}'' @ rest) = Some (JObj [], rest)"
  by (simp add: skip_ws_def is_ws_def)

lemma parse_value_arr:
  assumes "\<not> is_ws c" and "c \<noteq> CHR '']''"
  shows "parse_value (Suc n) (CHR ''['' # c # r) = map_option (apfst JArr) (parse_elems n (c # r))"
  using assms by (simp add: skip_ws_def is_ws_def)

lemma parse_value_obj:
  assumes "\<not> is_ws c" and "c \<noteq> CHR ''}''"
  shows "parse_value (Suc n) (CHR ''{'' # c # r) =
    map_option (apfst (\<lambda>ms. JObj (build_obj ms))) (parse_members n (c # r))"
  using assms by (simp add: skip_ws_def is_ws_def)

lemma parse_elems_more:
  assumes "parse_value n s = Some (v, CHR '','' # r)"
  shows "parse_elems (Suc n) s = map_option (apfst ((#) v)) (parse_elems n r)"
  using assms by (simp add: skip_ws_def is_ws_def)

lemma parse_elems_last:
  assumes "parse_value n s = Some (v, CHR '']'' # r)"
  shows "parse_elems (Suc n) s = Some ([v], r)"
  using assms by (simp add: skip_ws_def is_ws_def)

lemma parse_members_more:
  assumes "parse_value n s = Some (v, CHR '','' # r)"
  shows "parse_members (Suc n) (quote k @ CHR '':'' # s) =
    map_option (apfst ((#) (k, v))) (parse_members n r)"
  using assms parse_string_quote [of k "CHR '':'' # s"]
  by (simp add: quote_def skip_ws_def is_ws_def del: parse_string.simps)

lemma parse_members_last:
  assumes "parse_value n s = Some (v, CHR ''}'' # r)"
  shows "parse_members (Suc n) (quote k @ CHR '':'' # s) = Some ([(k, v)], r)"
  using assms parse_string_quote [of k "CHR '':'' # s"]
  by (simp add: quote_def skip_ws_def is_ws_def del: parse_string.simps)

lemma obj_add_last:
  assumes "key_order (map fst ps @ [k])"
  shows "obj_add k v ps = ps @ [(k, v)]"
proof (cases "array_index k")
  case None
  then show ?thesis
    by (simp add: obj_add_def)
next
  case (Some i)
  from assms have "\<forall>p \<in> set ps. key_precedes (fst p) k"
    by (auto simp: key_order_def sorted_wrt_append)
  with Some have "\<forall>p \<in> set ps. index_below i p"
    by (auto simp: key_precedes_def index_below_def split: option.splits)
  then have "takeWhile (index_below i) ps = ps" "dropWhile (index_below i) ps = []"
    by simp_all
  with Some show ?thesis
    by (simp add: obj_add_def)
qed

lemma build_obj_distinct:
  "distinct (map fst (acc @ ms)) \<Longrightarrow> key_order (map fst (acc @ ms)) \<Longrightarrow>
   fold (\<lambda>(k, v). obj_set k v) ms acc = acc @ ms"
proof (induction ms arbitrary: acc)
  case Nil
  then show ?case by simp
next
  case (Cons m ms)
  obtain k v where m: "m = (k, v)" by (cases m)
  from Cons.prems m have "k \<notin> fst ` set acc" by auto
  moreover from Cons.prems(2) m have "key_order (map fst acc @ [k])"
    by (simp add: key_order_def sorted_wrt_append)
  ultimately have "obj_set k v acc = acc @ [(k, v)]"
    by (simp add: obj_set_def obj_add_last)
  moreover from Cons.prems m have "distinct (map fst ((acc @ [(k, v)]) @ ms))"
    and "key_order (map fst ((acc @ [(k, v)]) @ ms))"
    by simp_all
  ultimately show ?case
    using Cons.IH [of "acc @ [(k, v)]"] m by simp
qed

lemma join_Cons: "join (t # ts) = (if ts = [] then t else t @ CHR '','' # join ts)"
  by (cases ts) simp_all


lemma build_obj_id: "distinct (map fst ms) \<Longrightarrow> key_order (map fst ms) \<Longrightarrow> build_obj ms = ms"
  using build_obj_distinct [of "[]" ms] by (simp add: build_obj_def)


lemma delimited_simps:
  "delimited (CHR '','' # r)" "delimited (CHR '']'' # r)" "delimited (CHR ''}'' # r)" "delimited []"
  by (simp_all add: delimited_def)

lemma not_ws_simps:
  "\<not> is_ws (CHR ''n'')" "\<not> is_ws (CHR ''t'')" "\<not> is_ws (CHR ''f'')" "\<not> is_ws (CHR 0x22)"
  "\<not> is_ws (CHR ''['')" "\<not> is_ws (CHR ''{'')" "\<not> is_ws (CHR ''-'')"
  "is_digit c \<Longrightarrow> \<not> is_ws c"
  by (auto simp: is_ws_def is_digit_def)

lemma serialize_roundtrip:
  "json_representable v \<Longrightarrow>
     \<exists>t. serialize v = Some t \<and> t \<noteq> [] \<and> \<not> is_ws (hd t) \<and> hd t \<noteq> CHR '']'' \<and> hd t \<noteq> CHR ''}''
       \<and> (\<forall>n rest. length t \<le> n \<longrightarrow> delimited rest \<longrightarrow> parse_value n (t @ rest) = Some (v, rest))"
  "json_representables vs \<Longrightarrow> vs \<noteq> [] \<Longrightarrow>
     join (serialize_elems vs) \<noteq> [] \<and> \<not> is_ws (hd (join (serialize_elems vs)))
       \<and> hd (join (serialize_elems vs)) \<noteq> CHR '']''
       \<and> (\<forall>n rest. length (join (serialize_elems vs)) < n \<longrightarrow>
             parse_elems n (join (serialize_elems vs) @ CHR '']'' # rest) = Some (vs, rest))"
  "json_members ps \<Longrightarrow> ps \<noteq> [] \<Longrightarrow>
     join (serialize_members ps) \<noteq> [] \<and> hd (join (serialize_members ps)) = CHR 0x22
       \<and> (\<forall>n rest. length (join (serialize_members ps)) < n \<longrightarrow>
             parse_members n (join (serialize_members ps) @ CHR ''}'' # rest) = Some (ps, rest))"
proof (induction v and vs and ps rule: json_representable_json_representables_json_members.induct)
  case 1
  then show ?case by simp
next
  case 2
  have "parse_value n (''null'' @ rest) = Some (JNull, rest)" if "length ''null'' \<le> n" for n rest
  proof -
    from that obtain m where "n = Suc m" by (cases n) auto
    then show ?thesis by (simp only: parse_value_null)
  qed
  then show ?case by (simp add: is_ws_def)
next
  case (3 b)
  have "parse_value n ((if b then ''true'' else ''false'') @ rest) = Some (JBool b, rest)"
    if "length (if b then ''true'' else ''false'') \<le> n" for n rest
  proof -
    from that obtain m where "n = Suc m" by (cases n) (auto split: if_splits)
    then show ?thesis
      using parse_value_true [of m rest] parse_value_false [of m rest] by (cases b) simp_all
  qed
  then show ?case by (cases b) (simp_all add: is_ws_def)
next
  case (4 i)
  then have safe: "\<bar>i\<bar> \<le> 9007199254740991"
    by simp
  obtain c r where cr: "show_int i = c # r" "c = CHR ''-'' \<or> is_digit c"
    using show_int_start by blast
  have "parse_value n (show_int i @ rest) = Some (JNum i, rest)"
    if "length (show_int i) \<le> n" "delimited rest" for n rest
  proof -
    from that(1) cr(1) obtain m where "n = Suc m" by (cases n) auto
    then show ?thesis using parse_value_num [OF that(2) safe] by simp
  qed
  moreover have "\<not> is_ws c" "c \<noteq> CHR '']''" "c \<noteq> CHR ''}''"
    using cr(2) by (auto simp: is_ws_def is_digit_def)
  ultimately show ?case
    using cr(1) safe by simp
next
  case 5
  then show ?case by simp
next
  case (6 b)
  then show ?case by simp
next
  case (7 t)
  then have p: "parse_number t = Some (JDouble t, [])"
    by simp
  obtain c r where cr: "t = c # r" "c = CHR ''-'' \<or> is_digit c"
    using parse_number_start [OF p] by blast
  have "parse_value n (t @ rest) = Some (JDouble t, rest)"
    if "length t \<le> n" "delimited rest" for n rest
  proof -
    from that(1) cr(1) obtain m where "n = Suc m" by (cases n) auto
    then show ?thesis using parse_value_double [OF that(2) p] by simp
  qed
  moreover have "\<not> is_ws c" "c \<noteq> CHR '']''" "c \<noteq> CHR ''}''"
    using cr(2) by (auto simp: is_ws_def is_digit_def)
  ultimately show ?case
    using cr(1) by simp
next
  case (8 s)
  have "parse_value n (quote s @ rest) = Some (JStr s, rest)" if "length (quote s) \<le> n" for n rest
  proof -
    from that obtain m where "n = Suc m" by (cases n) (auto simp: quote_def)
    then show ?thesis by (simp only: parse_value_str)
  qed
  then show ?case by (simp add: quote_def is_ws_def)
next
  case (9 vs)
  let ?j = "join (serialize_elems vs)"
  let ?t = "CHR ''['' # ?j @ '']''"
  have "parse_value n (?t @ rest) = Some (JArr vs, rest)" if len: "length ?t \<le> n" for n rest
  proof -
    from len obtain m where m: "n = Suc m" by (cases n) auto
    show ?thesis
    proof (cases "vs = []")
      case True
      then show ?thesis using parse_value_arr_empty [of m rest] m by simp
    next
      case False
      with "9.IH" "9.prems" have j: "?j \<noteq> []" "\<not> is_ws (hd ?j)" "hd ?j \<noteq> CHR '']''"
        and p: "\<And>n rest. length ?j < n \<Longrightarrow> parse_elems n (?j @ CHR '']'' # rest) = Some (vs, rest)"
        by simp_all
      from j(1) obtain c r where cr: "?j = c # r" by (cases ?j) auto
      from len m have "length ?j < m" by simp
      from p [OF this, of rest] have "parse_elems m (c # r @ CHR '']'' # rest) = Some (vs, rest)"
        using cr by simp
      moreover have "parse_value (Suc m) (CHR ''['' # c # r @ CHR '']'' # rest)
          = map_option (apfst JArr) (parse_elems m (c # r @ CHR '']'' # rest))"
        using j(2,3) cr by (intro parse_value_arr) simp_all
      ultimately show ?thesis
        using m cr by simp
    qed
  qed
  then show ?case by (simp add: is_ws_def)
next
  case (10 ps)
  let ?j = "join (serialize_members ps)"
  let ?t = "CHR ''{'' # ?j @ ''}''"
  from "10.prems" have dist: "distinct (map fst ps)" and ord: "key_order (map fst ps)"
    and mem: "json_members ps" by simp_all
  have "parse_value n (?t @ rest) = Some (JObj ps, rest)" if len: "length ?t \<le> n" for n rest
  proof -
    from len obtain m where m: "n = Suc m" by (cases n) auto
    show ?thesis
    proof (cases "ps = []")
      case True
      then show ?thesis using parse_value_obj_empty [of m rest] m by simp
    next
      case False
      with "10.IH" mem have j: "?j \<noteq> []" "hd ?j = CHR 0x22"
        and p: "\<And>n rest. length ?j < n \<Longrightarrow> parse_members n (?j @ CHR ''}'' # rest) = Some (ps, rest)"
        by simp_all
      from j obtain r where cr: "?j = CHR 0x22 # r" by (cases ?j) auto
      from len m have "length ?j < m" by simp
      from p [OF this, of rest] have "parse_members m (CHR 0x22 # r @ CHR ''}'' # rest) = Some (ps, rest)"
        using cr by simp
      moreover have "parse_value (Suc m) (CHR ''{'' # CHR 0x22 # r @ CHR ''}'' # rest)
          = map_option (apfst (\<lambda>ms. JObj (build_obj ms))) (parse_members m (CHR 0x22 # r @ CHR ''}'' # rest))"
        by (intro parse_value_obj) (simp_all add: is_ws_def)
      ultimately show ?thesis
        using m cr build_obj_id [OF dist ord] by simp
    qed
  qed
  then show ?case by (simp add: is_ws_def)
next
  case 11
  then show ?case by simp
next
  case (12 v vs)
  from "12.prems" have rv: "json_representable v" and rvs: "json_representables vs" by simp_all
  from "12.IH"(1) [OF rv] obtain t where t: "serialize v = Some t" "t \<noteq> []" "\<not> is_ws (hd t)"
      "hd t \<noteq> CHR '']''"
    and pv: "\<And>n rest. length t \<le> n \<Longrightarrow> delimited rest \<Longrightarrow> parse_value n (t @ rest) = Some (v, rest)"
    by blast
  let ?j' = "join (serialize_elems vs)"
  let ?j = "join (serialize_elems (v # vs))"
  have j: "?j = (if vs = [] then t else t @ CHR '','' # ?j')"
    using t(1) by (cases vs) (simp_all add: join_Cons)
  have hd: "hd ?j = hd t" "?j \<noteq> []"
    using j t(2) by (auto simp: hd_append)
  have "parse_elems n (?j @ CHR '']'' # rest) = Some (v # vs, rest)" if len: "length ?j < n" for n rest
  proof -
    from len obtain m where m: "n = Suc m" by (cases n) auto
    show ?thesis
    proof (cases "vs = []")
      case True
      with j len m have "length t \<le> m" by simp
      from pv [OF this, of "CHR '']'' # rest"]
      have "parse_value m (t @ CHR '']'' # rest) = Some (v, CHR '']'' # rest)"
        by (simp add: delimited_simps)
      from parse_elems_last [OF this] show ?thesis
        using True j m by simp
    next
      case False
      with j len m have l: "length t \<le> m" "length ?j' < m" by simp_all
      from pv [OF l(1), of "CHR '','' # ?j' @ CHR '']'' # rest"]
      have "parse_value m (t @ CHR '','' # ?j' @ CHR '']'' # rest)
          = Some (v, CHR '','' # ?j' @ CHR '']'' # rest)"
        by (simp add: delimited_simps)
      from parse_elems_more [OF this]
      have "parse_elems (Suc m) (t @ CHR '','' # ?j' @ CHR '']'' # rest)
          = map_option (apfst ((#) v)) (parse_elems m (?j' @ CHR '']'' # rest))" .
      moreover from "12.IH"(2) [OF rvs False] l(2)
      have "parse_elems m (?j' @ CHR '']'' # rest) = Some (vs, rest)"
        by blast
      ultimately show ?thesis
        using False j m by simp
    qed
  qed
  with hd t show ?case by simp
next
  case 13
  then show ?case by simp
next
  case (14 p ps)
  obtain k v where p: "p = (k, v)" by (cases p)
  from "14.prems" p have rv: "json_representable v" and rps: "json_members ps" by simp_all
  from "14.IH"(1) rv p obtain t where t: "serialize v = Some t"
    and pv: "\<And>n rest. length t \<le> n \<Longrightarrow> delimited rest \<Longrightarrow> parse_value n (t @ rest) = Some (v, rest)"
    by auto
  let ?m = "quote k @ CHR '':'' # t"
  let ?j' = "join (serialize_members ps)"
  let ?j = "join (serialize_members (p # ps))"
  have nonempty: "serialize_members ps = [] \<longleftrightarrow> ps = []"
  proof (cases ps)
    case Nil
    then show ?thesis by simp
  next
    case (Cons q qs)
    with "14.IH"(2) [OF rps] have "?j' \<noteq> []" by simp
    then show ?thesis using Cons by auto
  qed
  have j: "?j = (if ps = [] then ?m else ?m @ CHR '','' # ?j')"
    using t p nonempty by (simp add: join_Cons)
  have hd: "hd ?j = CHR 0x22" "?j \<noteq> []"
    using j by (auto simp: quote_def)
  have "parse_members n (?j @ CHR ''}'' # rest) = Some (p # ps, rest)" if len: "length ?j < n" for n rest
  proof -
    from len obtain m where m: "n = Suc m" by (cases n) auto
    show ?thesis
    proof (cases "ps = []")
      case True
      with j len m have "length t \<le> m" by simp
      from pv [OF this, of "CHR ''}'' # rest"]
      have "parse_value m (t @ CHR ''}'' # rest) = Some (v, CHR ''}'' # rest)"
        by (simp add: delimited_simps)
      from parse_members_last [OF this, of k] show ?thesis
        using True j m p by simp
    next
      case False
      with j len m have l: "length t \<le> m" "length ?j' < m" by simp_all
      from pv [OF l(1), of "CHR '','' # ?j' @ CHR ''}'' # rest"]
      have "parse_value m (t @ CHR '','' # ?j' @ CHR ''}'' # rest)
          = Some (v, CHR '','' # ?j' @ CHR ''}'' # rest)"
        by (simp add: delimited_simps)
      from parse_members_more [OF this, of k]
      have "parse_members (Suc m) (quote k @ CHR '':'' # t @ CHR '','' # ?j' @ CHR ''}'' # rest)
          = map_option (apfst ((#) (k, v))) (parse_members m (?j' @ CHR ''}'' # rest))" .
      moreover from "14.IH"(2) [OF rps False] l(2)
      have "parse_members m (?j' @ CHR ''}'' # rest) = Some (ps, rest)"
        by blast
      ultimately show ?thesis
        using False j m p by simp
    qed
  qed
  with hd show ?case by simp
qed

subsection \<open>The bound of the parser\<close>

lemma skip_ws_length: "length (skip_ws s) \<le> length s"
  by (simp add: skip_ws_def length_dropWhile_le)

lemma strip_prefix_length: "strip_prefix p s = Some r \<Longrightarrow> length r + length p = length s"
  by (induction p s rule: strip_prefix.induct) (auto split: if_splits)

lemma parse_string_length: "parse_string s = Some (k, r) \<Longrightarrow> length r < length s"
proof (induction "length s" arbitrary: s k r rule: less_induct)
  case less
  from less.prems obtain c s' where s: "s = c # s'"
    by (cases s) auto
  show ?case
  proof (cases "c = CHR 0x22")
    case True
    with less.prems s show ?thesis by simp
  next
    case nq: False
    show ?thesis
    proof (cases "c = CHR 0x5C")
      case False
      with nq less.prems s obtain k' where "parse_string s' = Some (k', r)"
        by (auto split: if_splits)
      with less.hyps [of s' k' r] s show ?thesis
        by simp
    next
      case bs: True
      from bs nq less.prems s obtain e r1 where s': "s' = e # r1"
        by (cases s') auto
      show ?thesis
      proof (cases "e = CHR ''u''")
        case True
        with bs nq s s' less.prems obtain a b c' d r2 k'
          where r1: "r1 = a # b # c' # d # r2"
            and rec: "parse_string r2 = Some (k', r)"
          by (auto split: list.splits option.splits)
        from less.hyps [of r2 k' r] rec s s' r1 show ?thesis by simp
      next
        case False
        with bs nq s s' less.prems obtain k' where rec: "parse_string r1 = Some (k', r)"
          by (auto split: option.splits)
        from less.hyps [of r1 k' r] rec s s' show ?thesis by simp
      qed
    qed
  qed
qed

lemma parse_frac_length: "parse_frac s = Some (f, r) \<Longrightarrow> length r \<le> length s"
  by (auto simp: parse_frac_def length_dropWhile_le le_SucI split: list.splits if_splits)

lemma length_dropWhile_Suc:
  "length (dropWhile P xs) \<le> Suc (length xs)" "length (dropWhile P xs) \<le> Suc (Suc (length xs))"
  using length_dropWhile_le [of P xs] by simp_all

lemma parse_exp_length: "parse_exp s = Some (f, r) \<Longrightarrow> length r \<le> length s"
  by (auto simp: parse_exp_def Let_def length_dropWhile_Suc split: list.splits if_splits)

lemma parse_number_length:
  assumes "parse_number s = Some (v, r)"
  shows "length r < length s"
  using assms
  by (auto simp: parse_number_def Let_def split: list.splits option.splits if_splits
      dest!: parse_frac_length parse_exp_length)


lemma skip_ws_Cons_length: "skip_ws s = c # r \<Longrightarrow> length r < length s"
  using skip_ws_length [of s] by simp

text \<open>One step of \<open>parse_value\<close>: either it does not recurse, or it hands the rest of the
  text to \<open>parse_elems\<close> or to \<open>parse_members\<close>.\<close>

lemma parse_value_Suc_cases:
  assumes "parse_value (Suc n) s = Some (v, r)"
  shows "(length r < length s \<and> (\<forall>m. parse_value (Suc m) s = Some (v, r)))
    \<or> (\<exists>r0 vs. length r0 < length s \<and> parse_elems n r0 = Some (vs, r) \<and> v = JArr vs
          \<and> (\<forall>m. parse_value (Suc m) s = map_option (apfst JArr) (parse_elems m r0)))
    \<or> (\<exists>r0 ms. length r0 < length s \<and> parse_members n r0 = Some (ms, r) \<and> v = JObj (build_obj ms)
          \<and> (\<forall>m. parse_value (Suc m) s
                 = map_option (apfst (\<lambda>ms. JObj (build_obj ms))) (parse_members m r0)))"
proof -
  from assms obtain c r0 where sk: "skip_ws s = c # r0"
    by (cases "skip_ws s") auto
  note l0 = skip_ws_Cons_length [OF sk]
  consider (lit) "c = CHR ''n'' \<or> c = CHR ''t'' \<or> c = CHR ''f''"
    | (str) "c = CHR 0x22"
    | (arr) "c = CHR ''[''"
    | (obj) "c = CHR ''{''"
    | (num) "c \<noteq> CHR ''n''" "c \<noteq> CHR ''t''" "c \<noteq> CHR ''f''" "c \<noteq> CHR 0x22" "c \<noteq> CHR ''[''"
        "c \<noteq> CHR ''{''"
    by blast
  then show ?thesis
  proof cases
    case lit
    with assms sk obtain p where "strip_prefix p r0 = Some r"
      by (auto split: if_splits)
    from strip_prefix_length [OF this] l0 have "length r < length s"
      by simp
    moreover have "parse_value (Suc m) s = parse_value (Suc n) s" for m
      using lit sk by auto
    ultimately show ?thesis
      using assms by simp
  next
    case str
    with assms sk obtain k where "parse_string r0 = Some (k, r)"
      by auto
    from parse_string_length [OF this] l0 have "length r < length s"
      by simp
    moreover have "parse_value (Suc m) s = parse_value (Suc n) s" for m
      using str sk by simp
    ultimately show ?thesis
      using assms by simp
  next
    case arr
    from arr assms sk obtain c1 r1 where sk1: "skip_ws r0 = c1 # r1"
      by (cases "skip_ws r0") auto
    show ?thesis
    proof (cases "c1 = CHR '']''")
      case True
      with arr assms sk sk1 have "r = r1"
        by simp
      with skip_ws_Cons_length [OF sk1] l0 have "length r < length s"
        by simp
      moreover have "parse_value (Suc m) s = parse_value (Suc n) s" for m
        using arr True sk sk1 by simp
      ultimately show ?thesis
        using assms by simp
    next
      case False
      with arr assms sk sk1 obtain vs where "parse_elems n r0 = Some (vs, r)" "v = JArr vs"
        by auto
      moreover have "parse_value (Suc m) s = map_option (apfst JArr) (parse_elems m r0)" for m
        using arr False sk sk1 by simp
      ultimately show ?thesis
        using l0 by blast
    qed
  next
    case obj
    from obj assms sk obtain c1 r1 where sk1: "skip_ws r0 = c1 # r1"
      by (cases "skip_ws r0") auto
    show ?thesis
    proof (cases "c1 = CHR ''}''")
      case True
      with obj assms sk sk1 have "r = r1"
        by simp
      with skip_ws_Cons_length [OF sk1] l0 have "length r < length s"
        by simp
      moreover have "parse_value (Suc m) s = parse_value (Suc n) s" for m
        using obj True sk sk1 by simp
      ultimately show ?thesis
        using assms by simp
    next
      case False
      with obj assms sk sk1 obtain ms where "parse_members n r0 = Some (ms, r)"
          "v = JObj (build_obj ms)"
        by auto
      moreover have "parse_value (Suc m) s
          = map_option (apfst (\<lambda>ms. JObj (build_obj ms))) (parse_members m r0)" for m
        using obj False sk sk1 by simp
      ultimately show ?thesis
        using l0 by blast
    qed
  next
    case num
    with assms sk have "parse_number (c # r0) = Some (v, r)"
      by simp
    from parse_number_length [OF this] skip_ws_length [of s] sk have "length r < length s"
      by simp
    moreover have "parse_value (Suc m) s = parse_value (Suc n) s" for m
      using num sk by simp
    ultimately show ?thesis
      using assms by simp
  qed
qed


lemma parse_elems_Suc_cases:
  assumes "parse_elems (Suc n) s = Some (vs, r)"
  shows "\<exists>v r1 r2. parse_value n s = Some (v, r1) \<and> length r2 < length r1
    \<and> ((vs = [v] \<and> r = r2 \<and> (\<forall>m. parse_value m s = Some (v, r1) \<longrightarrow> parse_elems (Suc m) s = Some (vs, r)))
       \<or> (\<exists>vs'. parse_elems n r2 = Some (vs', r) \<and> vs = v # vs'
            \<and> (\<forall>m. parse_value m s = Some (v, r1) \<longrightarrow>
                  parse_elems (Suc m) s = map_option (apfst ((#) v)) (parse_elems m r2))))"
proof -
  from assms obtain v r1 where pv: "parse_value n s = Some (v, r1)"
    by (auto split: option.splits)
  with assms obtain c r2 where sk: "skip_ws r1 = c # r2"
    by (cases "skip_ws r1") auto
  note l = skip_ws_Cons_length [OF sk]
  show ?thesis
  proof (cases "c = CHR '',''")
    case True
    with assms pv sk obtain vs' where "parse_elems n r2 = Some (vs', r)" "vs = v # vs'"
      by auto
    moreover have "parse_elems (Suc m) s = map_option (apfst ((#) v)) (parse_elems m r2)"
      if "parse_value m s = Some (v, r1)" for m
      using that True sk by simp
    ultimately show ?thesis
      using pv l by blast
  next
    case False
    with assms pv sk have "c = CHR '']''" "vs = [v]" "r = r2"
      by (auto split: if_splits)
    moreover from this have "parse_elems (Suc m) s = Some (vs, r)"
      if "parse_value m s = Some (v, r1)" for m
      using that sk by simp
    ultimately show ?thesis
      using pv l by blast
  qed
qed

lemma parse_members_Suc_cases:
  assumes "parse_members (Suc n) s = Some (ms, r)"
  shows "\<exists>k v r2 r3 r4. length r2 < length s \<and> parse_value n r2 = Some (v, r3) \<and> length r4 < length r3
    \<and> ((ms = [(k, v)] \<and> r = r4
          \<and> (\<forall>m. parse_value m r2 = Some (v, r3) \<longrightarrow> parse_members (Suc m) s = Some (ms, r)))
       \<or> (\<exists>ms'. parse_members n r4 = Some (ms', r) \<and> ms = (k, v) # ms'
            \<and> (\<forall>m. parse_value m r2 = Some (v, r3) \<longrightarrow>
                  parse_members (Suc m) s = map_option (apfst ((#) (k, v))) (parse_members m r4))))"
proof -
  from assms obtain c r0 where sk: "skip_ws s = c # r0"
    by (cases "skip_ws s") auto
  with assms have c: "c = CHR 0x22"
    by (auto split: if_splits)
  with assms sk obtain k r1 where ps: "parse_string r0 = Some (k, r1)"
    by (auto split: option.splits)
  with assms sk c obtain c1 r2 where sk1: "skip_ws r1 = c1 # r2"
    by (cases "skip_ws r1") auto
  with assms sk c ps have c1: "c1 = CHR '':''"
    by (auto split: if_splits)
  with assms sk c ps sk1 obtain v r3 where pv: "parse_value n r2 = Some (v, r3)"
    by (auto split: option.splits)
  with assms sk c ps sk1 c1 obtain c2 r4 where sk2: "skip_ws r3 = c2 # r4"
    by (cases "skip_ws r3") auto
  have l2: "length r2 < length s"
    using skip_ws_Cons_length [OF sk] parse_string_length [OF ps] skip_ws_Cons_length [OF sk1]
    by simp
  note l4 = skip_ws_Cons_length [OF sk2]
  show ?thesis
  proof (cases "c2 = CHR '',''")
    case True
    with assms sk c ps sk1 c1 pv sk2 obtain ms' where "parse_members n r4 = Some (ms', r)"
        "ms = (k, v) # ms'"
      by auto
    moreover have "parse_members (Suc m) s = map_option (apfst ((#) (k, v))) (parse_members m r4)"
      if "parse_value m r2 = Some (v, r3)" for m
      using that True sk c ps sk1 c1 sk2 by simp
    ultimately show ?thesis
      using pv l2 l4 by blast
  next
    case False
    with assms sk c ps sk1 c1 pv sk2 have "c2 = CHR ''}''" "ms = [(k, v)]" "r = r4"
      by (auto split: if_splits)
    moreover from this have "parse_members (Suc m) s = Some (ms, r)"
      if "parse_value m r2 = Some (v, r3)" for m
      using that sk c ps sk1 c1 sk2 by simp
    ultimately show ?thesis
      using pv l2 l4 by blast
  qed
qed

text \<open>A result of the parser does not depend on the bound, once the bound is at least the
  number of characters that the parser has read.\<close>

lemma parse_bound:
  "(\<forall>s v r. parse_value n s = Some (v, r) \<longrightarrow>
      length r < length s \<and> (\<forall>m. length s - length r \<le> m \<longrightarrow> parse_value m s = Some (v, r)))
   \<and> (\<forall>s vs r. parse_elems n s = Some (vs, r) \<longrightarrow>
      length r < length s \<and> (\<forall>m. length s - length r \<le> m \<longrightarrow> parse_elems m s = Some (vs, r)))
   \<and> (\<forall>s ms r. parse_members n s = Some (ms, r) \<longrightarrow>
      length r < length s \<and> (\<forall>m. length s - length r \<le> m \<longrightarrow> parse_members m s = Some (ms, r)))"
proof (induction n)
  case 0
  show ?case by simp
next
  case (Suc n)
  then have P: "\<And>s v r. parse_value n s = Some (v, r) \<Longrightarrow> length r < length s"
    and P': "\<And>s v r m. parse_value n s = Some (v, r) \<Longrightarrow> length s - length r \<le> m
          \<Longrightarrow> parse_value m s = Some (v, r)"
    and Q: "\<And>s vs r. parse_elems n s = Some (vs, r) \<Longrightarrow> length r < length s"
    and Q': "\<And>s vs r m. parse_elems n s = Some (vs, r) \<Longrightarrow> length s - length r \<le> m
          \<Longrightarrow> parse_elems m s = Some (vs, r)"
    and R: "\<And>s ms r. parse_members n s = Some (ms, r) \<Longrightarrow> length r < length s"
    and R': "\<And>s ms r m. parse_members n s = Some (ms, r) \<Longrightarrow> length s - length r \<le> m
          \<Longrightarrow> parse_members m s = Some (ms, r)"
    by blast+
  have val: "length r < length s \<and> (\<forall>m. length s - length r \<le> m \<longrightarrow> parse_value m s = Some (v, r))"
    if H: "parse_value (Suc n) s = Some (v, r)" for s v r
  proof -
    from parse_value_Suc_cases [OF H]
    consider (atom) "length r < length s" "\<And>m. parse_value (Suc m) s = Some (v, r)"
      | (arr) r0 vs where "length r0 < length s" "parse_elems n r0 = Some (vs, r)" "v = JArr vs"
          "\<And>m. parse_value (Suc m) s = map_option (apfst JArr) (parse_elems m r0)"
      | (obj) r0 ms where "length r0 < length s" "parse_members n r0 = Some (ms, r)"
          "v = JObj (build_obj ms)"
          "\<And>m. parse_value (Suc m) s = map_option (apfst (\<lambda>ms. JObj (build_obj ms))) (parse_members m r0)"
      by blast
    then show ?thesis
    proof cases
      case atom
      have "parse_value m s = Some (v, r)" if "length s - length r \<le> m" for m
      proof -
        from that atom(1) obtain m' where "m = Suc m'" by (cases m) auto
        with atom(2) show ?thesis by simp
      qed
      with atom(1) show ?thesis by blast
    next
      case arr
      note l = Q [OF arr(2)]
      have "parse_value m s = Some (v, r)" if "length s - length r \<le> m" for m
      proof -
        from that arr(1) l obtain m' where m: "m = Suc m'" by (cases m) auto
        with that arr(1) l have "length r0 - length r \<le> m'" by simp
        from Q' [OF arr(2) this] arr(3,4) m show ?thesis by simp
      qed
      with arr(1) l show ?thesis by force
    next
      case obj
      note l = R [OF obj(2)]
      have "parse_value m s = Some (v, r)" if "length s - length r \<le> m" for m
      proof -
        from that obj(1) l obtain m' where m: "m = Suc m'" by (cases m) auto
        with that obj(1) l have "length r0 - length r \<le> m'" by simp
        from R' [OF obj(2) this] obj(3,4) m show ?thesis by simp
      qed
      with obj(1) l show ?thesis by force
    qed
  qed
  have elems: "length r < length s \<and> (\<forall>m. length s - length r \<le> m \<longrightarrow> parse_elems m s = Some (vs, r))"
    if H: "parse_elems (Suc n) s = Some (vs, r)" for s vs r
  proof -
    from parse_elems_Suc_cases [OF H] obtain v r1 r2
      where pv: "parse_value n s = Some (v, r1)" and l2: "length r2 < length r1"
        and alt: "(vs = [v] \<and> r = r2
              \<and> (\<forall>m. parse_value m s = Some (v, r1) \<longrightarrow> parse_elems (Suc m) s = Some (vs, r)))
          \<or> (\<exists>vs'. parse_elems n r2 = Some (vs', r) \<and> vs = v # vs'
              \<and> (\<forall>m. parse_value m s = Some (v, r1) \<longrightarrow>
                    parse_elems (Suc m) s = map_option (apfst ((#) v)) (parse_elems m r2)))"
      by blast
    note l1 = P [OF pv]
    from alt show ?thesis
    proof
      assume a: "vs = [v] \<and> r = r2
          \<and> (\<forall>m. parse_value m s = Some (v, r1) \<longrightarrow> parse_elems (Suc m) s = Some (vs, r))"
      have "parse_elems m s = Some (vs, r)" if "length s - length r \<le> m" for m
      proof -
        from that a l1 l2 obtain m' where m: "m = Suc m'" by (cases m) auto
        with that a l1 l2 have "length s - length r1 \<le> m'" by simp
        from P' [OF pv this] a m show ?thesis by simp
      qed
      with a l1 l2 show ?thesis by force
    next
      assume "\<exists>vs'. parse_elems n r2 = Some (vs', r) \<and> vs = v # vs'
          \<and> (\<forall>m. parse_value m s = Some (v, r1) \<longrightarrow>
                parse_elems (Suc m) s = map_option (apfst ((#) v)) (parse_elems m r2))"
      then obtain vs' where pe: "parse_elems n r2 = Some (vs', r)" and vs: "vs = v # vs'"
        and step: "\<And>m. parse_value m s = Some (v, r1) \<Longrightarrow>
              parse_elems (Suc m) s = map_option (apfst ((#) v)) (parse_elems m r2)"
        by blast
      note l3 = Q [OF pe]
      have "parse_elems m s = Some (vs, r)" if "length s - length r \<le> m" for m
      proof -
        from that l1 l2 l3 obtain m' where m: "m = Suc m'" by (cases m) auto
        with that l1 l2 l3 have "length s - length r1 \<le> m'" "length r2 - length r \<le> m'"
          by simp_all
        from step [OF P' [OF pv this(1)]] Q' [OF pe this(2)] vs m show ?thesis by simp
      qed
      with l1 l2 l3 show ?thesis by force
    qed
  qed
  have members: "length r < length s
      \<and> (\<forall>m. length s - length r \<le> m \<longrightarrow> parse_members m s = Some (ms, r))"
    if H: "parse_members (Suc n) s = Some (ms, r)" for s ms r
  proof -
    from parse_members_Suc_cases [OF H] obtain k v r2 r3 r4
      where l2: "length r2 < length s" and pv: "parse_value n r2 = Some (v, r3)"
        and l4: "length r4 < length r3"
        and alt: "(ms = [(k, v)] \<and> r = r4
              \<and> (\<forall>m. parse_value m r2 = Some (v, r3) \<longrightarrow> parse_members (Suc m) s = Some (ms, r)))
          \<or> (\<exists>ms'. parse_members n r4 = Some (ms', r) \<and> ms = (k, v) # ms'
              \<and> (\<forall>m. parse_value m r2 = Some (v, r3) \<longrightarrow>
                    parse_members (Suc m) s = map_option (apfst ((#) (k, v))) (parse_members m r4)))"
      by blast
    note l3 = P [OF pv]
    from alt show ?thesis
    proof
      assume a: "ms = [(k, v)] \<and> r = r4
          \<and> (\<forall>m. parse_value m r2 = Some (v, r3) \<longrightarrow> parse_members (Suc m) s = Some (ms, r))"
      have "parse_members m s = Some (ms, r)" if "length s - length r \<le> m" for m
      proof -
        from that a l2 l3 l4 obtain m' where m: "m = Suc m'" by (cases m) auto
        with that a l2 l3 l4 have "length r2 - length r3 \<le> m'" by simp
        from P' [OF pv this] a m show ?thesis by simp
      qed
      with a l2 l3 l4 show ?thesis by force
    next
      assume "\<exists>ms'. parse_members n r4 = Some (ms', r) \<and> ms = (k, v) # ms'
          \<and> (\<forall>m. parse_value m r2 = Some (v, r3) \<longrightarrow>
                parse_members (Suc m) s = map_option (apfst ((#) (k, v))) (parse_members m r4))"
      then obtain ms' where pm: "parse_members n r4 = Some (ms', r)" and ms: "ms = (k, v) # ms'"
        and step: "\<And>m. parse_value m r2 = Some (v, r3) \<Longrightarrow>
              parse_members (Suc m) s = map_option (apfst ((#) (k, v))) (parse_members m r4)"
        by blast
      note l5 = R [OF pm]
      have "parse_members m s = Some (ms, r)" if "length s - length r \<le> m" for m
      proof -
        from that l2 l3 l4 l5 obtain m' where m: "m = Suc m'" by (cases m) auto
        with that l2 l3 l4 l5 have "length r2 - length r3 \<le> m'" "length r4 - length r \<le> m'"
          by simp_all
        from step [OF P' [OF pv this(1)]] R' [OF pm this(2)] ms m show ?thesis by simp
      qed
      with l2 l3 l4 l5 show ?thesis by force
    qed
  qed
  from val elems members show ?case
    by blast
qed

text \<open>The bound with which \<open>JSON_parse\<close> starts the parser is never what makes it reject a
  text: whatever the parser finds with any bound, it finds with that one.\<close>

lemma JSON_parse_bound:
  assumes "parse_value n s = Some (v, r)"
  shows "parse_value (Suc (length s)) s = Some (v, r)"
proof -
  from parse_bound [of n] assms
  have a: "length s - length r \<le> m \<Longrightarrow> parse_value m s = Some (v, r)" for m
    by blast
  show ?thesis
    by (rule a) simp
qed

section \<open>The round trip through the default codec\<close>

lemma JSON_roundtrip:
  assumes "json_representable v"
  shows "\<exists>t. JSON_stringify v = Some t \<and> t \<noteq> [] \<and> JSON_parse t = Inr v"
proof -
  from serialize_roundtrip(1) [OF assms] obtain t where t: "serialize v = Some t" "t \<noteq> []"
    and p: "\<And>n rest. length t \<le> n \<Longrightarrow> delimited rest \<Longrightarrow> parse_value n (t @ rest) = Some (v, rest)"
    by blast
  from p [of "Suc (length t)" "[]"] have "parse_value (Suc (length t)) t = Some (v, [])"
    by (simp add: delimited_simps)
  then have "JSON_parse t = Inr v"
    by (simp add: JSON_parse_def skip_ws_def)
  with t show ?thesis
    by (simp add: JSON_stringify_def)
qed




text \<open>So does an \<open>undefined\<close> inside an array, and a field whose value is \<open>undefined\<close> is
  not written at all.\<close>

lemma number_examples:
  "JSON_parse ''0.8'' = Inr (JDouble ''0.8'')"
  "JSON_parse ''8e-1'' = Inr (JDouble ''0.8'')"
  "JSON_parse ''1e2'' = Inr (JNum 100)"
  by code_simp+

lemma undefined_not_preserved:
  "map_option defaultDeserialize (defaultSerialize (JObj [(''cols'', JArr [JUndefined])]))
      = Some (Inr (JObj [(''cols'', JArr [JNull])]))"
  "map_option defaultDeserialize (defaultSerialize (JObj [(''theme'', JUndefined)]))
      = Some (Inr (JObj []))"
  by code_simp+

text \<open>What the hook writes for a State that JSON can represent, it reads back as that
  State: with a working storage, a key other than the probe's and no migration, \<open>readAll\<close>
  after \<open>writeFull\<close> yields the State.\<close>

lemma readAll_after_writeFull:
  assumes "json_representable (JObj S)"
    and "fst (isLocalStorageAvailable ls)" and "\<not> setItem_throws ls (key opts) t"
    and "\<not> getItem_throws ls (key opts)" and "key opts \<noteq> testKey"
    and "defaultSerialize (JObj S) = Some t"
    and "migrate opts = None"
  shows "fst (readAll opts (writeFull opts ls S)) = JObj S"
proof -
  from JSON_roundtrip [OF assms(1)] assms(6)
  have d: "defaultDeserialize t = Inr (JObj S)" and ne: "t \<noteq> []"
    by (auto simp: defaultSerialize_def defaultDeserialize_def)
  have w: "writeFull opts ls S = ls\<lparr>items := (items ls)(testKey := None, key opts \<mapsto> t)\<rparr>"
    using assms(2,3,5,6)
    by (simp add: writeFull_def writeLocalStorage_def probe_eq setItem_def split: if_splits)
  have "fst (isLocalStorageAvailable (writeFull opts ls S))"
    using assms(2) by (simp add: w probe_eq split: if_splits)
  then show ?thesis
    using assms(4,5,7) d ne by (simp add: readAll_value) (simp add: w split: option.splits)
qed


end
